theory Spec2Isabelle
  imports Main "HOL-Library.Sublist"
begin

section \<open>Strings and JavaScript values\<close>

text \<open>
  A JavaScript string is modelled by the bytes of its UTF-8 encoding (a \<open>string\<close>); a
  file written with encoding \<open>"utf8"\<close> holds the same bytes. Every string operation the
  scrapers use (\<open>includes\<close>, \<open>replace\<close>, \<open>split\<close>, the regular expressions) looks
  for ASCII characters only, and an ASCII byte never occurs inside a multi-byte UTF-8
  sequence, so these operations act on the bytes as they act on the code units.
  Strings with lone surrogates have no UTF-8 encoding and are outside the model.
\<close>

abbreviation LF :: char where "LF \<equiv> CHR 0x0A"
abbreviation CR :: char where "CR \<equiv> CHR 0x0D"
abbreviation DQ :: char where "DQ \<equiv> CHR 0x22"
abbreviation BSL :: char where "BSL \<equiv> CHR 0x5C"
abbreviation SP :: char where "SP \<equiv> CHR 0x20"
abbreviation COMMA :: char where "COMMA \<equiv> CHR 0x2C"
abbreviation SLASH :: char where "SLASH \<equiv> CHR 0x2F"

text \<open>A value handed to a CSV encoder: \<open>null\<close>/\<open>undefined\<close>, a string or a number.\<close>

datatype jsval = Null | Str string | Num nat

definition digit_char :: "nat \<Rightarrow> char" where
  "digit_char d = ''0123456789abcdef'' ! (d mod 16)"

fun string_of_nat :: "nat \<Rightarrow> string" where
  "string_of_nat n =
     (if n < 10 then [digit_char n] else string_of_nat (n div 10) @ [digit_char (n mod 10)])"

declare string_of_nat.simps [simp del]

text \<open>\<open>String(v)\<close>.\<close>

fun String_js :: "jsval \<Rightarrow> string" where
  "String_js Null = ''null''"
| "String_js (Str s) = s"
| "String_js (Num n) = string_of_nat n"

definition nullable :: "string option \<Rightarrow> jsval" where
  "nullable v = (case v of None \<Rightarrow> Null | Some s \<Rightarrow> Str s)"

text \<open>\<open>s.includes(sub)\<close>.\<close>

fun str_includes :: "string \<Rightarrow> string \<Rightarrow> bool" where
  "str_includes [] sub = (sub = [])"
| "str_includes (c # cs) sub = (prefix sub (c # cs) \<or> str_includes cs sub)"

text \<open>\<open>s.replace(/"/g, '""')\<close>.\<close>

fun double_quotes :: "string \<Rightarrow> string" where
  "double_quotes [] = []"
| "double_quotes (c # cs) = (if c = DQ then DQ # DQ # double_quotes cs else c # double_quotes cs)"

text \<open>\<open>s.replace(/\r?\n/g, " ")\<close>: every LF, with the CR before it if there is one,
  becomes one space; a CR that no LF follows stays.\<close>

fun replace_newlines :: "string \<Rightarrow> string" where
  "replace_newlines [] = []"
| "replace_newlines [c] = (if c = LF then [SP] else [c])"
| "replace_newlines (c # d # cs) =
     (if c = CR \<and> d = LF then SP # replace_newlines cs
      else if c = LF then SP # replace_newlines (d # cs)
      else c # replace_newlines (d # cs))"

text \<open>The white space and line terminators that \<open>trim()\<close> removes, in UTF-8:
  TAB, LF, VT, FF, CR, SP, U+00A0, U+1680, U+2000 to U+200A, U+2028, U+2029, U+202F,
  U+205F, U+3000, U+FEFF.\<close>

definition js_whitespace :: "string list" where
  "js_whitespace =
     [[CHR 0x09], [CHR 0x0A], [CHR 0x0B], [CHR 0x0C], [CHR 0x0D], [CHR 0x20],
      [CHR 0xC2, CHR 0xA0],
      [CHR 0xE1, CHR 0x9A, CHR 0x80],
      [CHR 0xE2, CHR 0x80, CHR 0x80], [CHR 0xE2, CHR 0x80, CHR 0x81],
      [CHR 0xE2, CHR 0x80, CHR 0x82], [CHR 0xE2, CHR 0x80, CHR 0x83],
      [CHR 0xE2, CHR 0x80, CHR 0x84], [CHR 0xE2, CHR 0x80, CHR 0x85],
      [CHR 0xE2, CHR 0x80, CHR 0x86], [CHR 0xE2, CHR 0x80, CHR 0x87],
      [CHR 0xE2, CHR 0x80, CHR 0x88], [CHR 0xE2, CHR 0x80, CHR 0x89],
      [CHR 0xE2, CHR 0x80, CHR 0x8A],
      [CHR 0xE2, CHR 0x80, CHR 0xA8], [CHR 0xE2, CHR 0x80, CHR 0xA9],
      [CHR 0xE2, CHR 0x80, CHR 0xAF],
      [CHR 0xE2, CHR 0x81, CHR 0x9F],
      [CHR 0xE3, CHR 0x80, CHR 0x80],
      [CHR 0xEF, CHR 0xBB, CHR 0xBF]]"

text \<open>Removing leading sequences of the list \<open>ws\<close> (all of them are non-empty).\<close>

fun strip_leading :: "string list \<Rightarrow> string \<Rightarrow> string" where
  "strip_leading ws [] = []"
| "strip_leading ws (c # cs) =
     (case find (\<lambda>w. prefix w (c # cs)) ws of
        None \<Rightarrow> c # cs
      | Some w \<Rightarrow> strip_leading ws (drop (length w - 1) cs))"

text \<open>\<open>s.trim()\<close>.\<close>

definition trim :: "string \<Rightarrow> string" where
  "trim s = rev (strip_leading (map rev js_whitespace) (rev (strip_leading js_whitespace s)))"

section \<open>The two tabular encoders\<close>

text \<open>\<open>csvEscape\<close> of \<open>earki.js\<close> (the jachai.org scraper): the test
  \<open>/[,"\n]/.test(str)\<close> and the wrap with doubled quotes.\<close>

definition csvEscape :: "jsval \<Rightarrow> string" where
  "csvEscape s =
     (case s of
        Null \<Rightarrow> []
      | _ \<Rightarrow> (let str = String_js s in
              if list_ex (\<lambda>c. c = COMMA \<or> c = DQ \<or> c = LF) str
              then DQ # double_quotes str @ [DQ] else str))"

text \<open>\<open>toCsvField\<close> of \<open>earki2_jokes.js\<close>, \<open>earki_satire_scraper.js\<close> and the
  fact-watch scraper (the three copies are the same text).\<close>

definition toCsvField :: "jsval \<Rightarrow> string" where
  "toCsvField v =
     (case v of
        Null \<Rightarrow> []
      | _ \<Rightarrow> (let s = trim (replace_newlines (String_js v)) in
              if str_includes s [DQ] \<or> str_includes s [COMMA]
              then DQ # double_quotes s @ [DQ] else s))"

section \<open>Records and the structured encoding\<close>

text \<open>The object every scraper builds for one article. \<open>None\<close> is \<open>null\<close>.\<close>

record row =
  article_id :: string
  publisher :: "string option"
  source :: string
  category :: "string option"
  published_at :: "string option"
  headline :: string
  content :: "string option"
  label :: nat

text \<open>\<open>JSON.stringify\<close> on a string: the quote, the backslash and the control characters
  below U+0020 are escaped, every other byte is kept.\<close>

definition json_escape_char :: "char \<Rightarrow> string" where
  "json_escape_char c =
     (if c = DQ then [BSL, DQ]
      else if c = BSL then [BSL, BSL]
      else if c = CHR 0x08 then [BSL, CHR ''b'']
      else if c = CHR 0x09 then [BSL, CHR ''t'']
      else if c = LF then [BSL, CHR ''n'']
      else if c = CHR 0x0C then [BSL, CHR ''f'']
      else if c = CR then [BSL, CHR ''r'']
      else if (of_char c :: nat) < 32
        then [BSL, CHR ''u'', CHR ''0'', CHR ''0'',
              digit_char (of_char c div 16), digit_char (of_char c mod 16)]
      else [c])"

definition json_string :: "string \<Rightarrow> string" where
  "json_string s = DQ # concat (map json_escape_char s) @ [DQ]"

definition json_nullable :: "string option \<Rightarrow> string" where
  "json_nullable v = (case v of None \<Rightarrow> ''null'' | Some s \<Rightarrow> json_string s)"

text \<open>\<open>JSON.stringify(row)\<close>: the keys in the order of the object literal.\<close>

definition JSON_stringify :: "row \<Rightarrow> string" where
  "JSON_stringify r =
     ''{'' @ json_string ''article_id'' @ '':'' @ json_string (article_id r) @ '','' @
     json_string ''publisher'' @ '':'' @ json_nullable (publisher r) @ '','' @
     json_string ''source'' @ '':'' @ json_string (source r) @ '','' @
     json_string ''category'' @ '':'' @ json_nullable (category r) @ '','' @
     json_string ''published_at'' @ '':'' @ json_nullable (published_at r) @ '','' @
     json_string ''headline'' @ '':'' @ json_string (headline r) @ '','' @
     json_string ''content'' @ '':'' @ json_nullable (content r) @ '','' @
     json_string ''label'' @ '':'' @ string_of_nat (label r) @ ''}''"

text \<open>\<open>fields.join(",")\<close>.\<close>

fun join_comma :: "string list \<Rightarrow> string" where
  "join_comma [] = []"
| "join_comma [x] = x"
| "join_comma (x # y # xs) = x @ COMMA # join_comma (y # xs)"

section \<open>The file system and the sinks\<close>

text \<open>The files the scrapers touch: the directories that exist and the contents of the
  regular files. The calls of \<open>fs\<close> are taken to succeed (no permission or disk error).\<close>

record filesys =
  dirs :: "string set"
  files :: "string \<rightharpoonup> string"

definition existsSync :: "filesys \<Rightarrow> string \<Rightarrow> bool" where
  "existsSync f p = (p \<in> dirs f \<or> files f p \<noteq> None)"

definition mkdir :: "string \<Rightarrow> filesys \<Rightarrow> filesys" where
  "mkdir p f = f\<lparr>dirs := insert p (dirs f)\<rparr>"

definition writeFile :: "string \<Rightarrow> string \<Rightarrow> filesys \<Rightarrow> filesys" where
  "writeFile p d f = f\<lparr>files := (files f)(p \<mapsto> d)\<rparr>"

definition unlink :: "string \<Rightarrow> filesys \<Rightarrow> filesys" where
  "unlink p f = f\<lparr>files := (files f)(p := None)\<rparr>"

definition appendFileSync :: "string \<Rightarrow> string \<Rightarrow> filesys \<Rightarrow> filesys" where
  "appendFileSync p d f =
     f\<lparr>files := (files f)(p \<mapsto> (case files f p of None \<Rightarrow> d | Some old \<Rightarrow> old @ d))\<rparr>"

definition HEADER :: string where
  "HEADER = ''article_id,publisher,source,category,published_at,headline,content,label'' @ [LF]"

text \<open>The byte-order mark U+FEFF in UTF-8.\<close>

definition BOM :: string where
  "BOM = [CHR 0xEF, CHR 0xBB, CHR 0xBF]"

subsection \<open>earki.js (jachai.org)\<close>

definition DATA_DIR :: string where "DATA_DIR = ''data''"
definition OUT_CSV :: string where "OUT_CSV = ''data/jachai_import.csv''"
definition OUT_JSONL :: string where "OUT_JSONL = ''data/jachai_import.jsonl''"

definition ensureOutputs :: "filesys \<Rightarrow> filesys" where
  "ensureOutputs f =
     (let f1 = mkdir DATA_DIR f;
          f2 = (if \<not> existsSync f1 OUT_CSV then writeFile OUT_CSV (BOM @ HEADER) f1 else f1)
      in if existsSync f2 OUT_JSONL then unlink OUT_JSONL f2 else f2)"

definition appendRow :: "row \<Rightarrow> filesys \<Rightarrow> filesys" where
  "appendRow r f =
     (let line = join_comma
            [csvEscape (Str (article_id r)), csvEscape (nullable (publisher r)),
             csvEscape (Str (source r)), csvEscape (nullable (category r)),
             csvEscape (nullable (published_at r)), csvEscape (Str (headline r)),
             csvEscape (nullable (content r)), string_of_nat (label r)] @ [LF]
      in appendFileSync OUT_JSONL (JSON_stringify r @ [LF]) (appendFileSync OUT_CSV line f))"

subsection \<open>earki2_jokes.js, the fact-watch scraper and earki_satire_scraper.js\<close>

text \<open>The three scripts share \<open>ensureOut\<close> and the body of \<open>writeRecord\<close> (the satire
  script has it inline in \<open>main\<close>); only the paths differ.\<close>

record outputs =
  OUT_DIR :: string
  JSONL_PATH :: string
  CSV_PATH :: string

definition jokes_out :: outputs where
  "jokes_out = \<lparr>OUT_DIR = ''data'', JSONL_PATH = ''data/earki_jokes.jsonl'',
                 CSV_PATH = ''data/earki_jokes.csv''\<rparr>"

definition factwatch_out :: outputs where
  "factwatch_out = \<lparr>OUT_DIR = ''data'', JSONL_PATH = ''data/factwatch_factchecks.jsonl'',
                     CSV_PATH = ''data/factwatch_factchecks.csv''\<rparr>"

definition satire_out :: outputs where
  "satire_out = \<lparr>OUT_DIR = ''data'', JSONL_PATH = ''data/earki_satire.jsonl'',
                  CSV_PATH = ''data/earki_satire.csv''\<rparr>"

definition ensureOut :: "outputs \<Rightarrow> filesys \<Rightarrow> filesys" where
  "ensureOut out f =
     (let f1 = (if \<not> existsSync f (OUT_DIR out) then mkdir (OUT_DIR out) f else f);
          f2 = (if \<not> existsSync f1 (JSONL_PATH out) then writeFile (JSONL_PATH out) [] f1 else f1)
      in if \<not> existsSync f2 (CSV_PATH out) then writeFile (CSV_PATH out) HEADER f2 else f2)"

definition writeRecord :: "outputs \<Rightarrow> row \<Rightarrow> filesys \<Rightarrow> filesys" where
  "writeRecord out r f =
     (let f1 = appendFileSync (JSONL_PATH out) (JSON_stringify r @ [LF]) f;
          csvLine = join_comma (map toCsvField
            [Str (article_id r), nullable (publisher r), Str (source r), nullable (category r),
             nullable (published_at r), Str (headline r),
             (case content r of None \<Rightarrow> Str [] | Some c \<Rightarrow> Str c), Num (label r)]) @ [LF]
      in appendFileSync (CSV_PATH out) csvLine f1)"

section \<open>The platform\<close>

text \<open>What the scripts take from the Node.js and browser runtime, not from this
  repository: the URL parser, SHA-1, the date parser and \<open>String.prototype.toLowerCase\<close>.
  They are parameters of the model, and the theorems hold for every platform.\<close>

record url =
  pathname :: string
  hostname :: string

record platform =
  URL_parse :: "string \<Rightarrow> url option"
  URL_resolve :: "string \<Rightarrow> string \<Rightarrow> string option"
  sha1 :: "string \<Rightarrow> string"
  Date_toISOString :: "string \<Rightarrow> string option"
  toLowerCase :: "string \<Rightarrow> string"

text \<open>
  \<^item> \<open>URL_parse P s\<close> is \<open>new URL(s)\<close>, \<open>None\<close> when the constructor throws;
  \<^item> \<open>URL_resolve P base href\<close> is \<open>new URL(href, base).href\<close>, \<open>None\<close> when it throws;
  \<^item> \<open>sha1 P s\<close> is \<open>crypto.createHash("sha1").update(s).digest("hex")\<close>;
  \<^item> \<open>Date_toISOString P s\<close> is \<open>new Date(s).toISOString()\<close>, \<open>None\<close> when the date is
    invalid (\<open>isNaN(d)\<close>).
\<close>

section \<open>Regular expressions\<close>

definition is_digit :: "char \<Rightarrow> bool" where
  "is_digit c = (c \<in> set ''0123456789'')"

text \<open>The word characters of \<open>\b\<close>: \<open>[A-Za-z0-9_]\<close>.\<close>

definition is_word_char :: "char \<Rightarrow> bool" where
  "is_word_char c =
     (c \<in> set ''abcdefghijklmnopqrstuvwxyzABCDEFGHIJKLMNOPQRSTUVWXYZ0123456789_'')"

text \<open>An unanchored regular expression is tried at every position from the left; the first
  position where it matches wins.\<close>

fun search :: "(string \<Rightarrow> 'a option) \<Rightarrow> string \<Rightarrow> 'a option" where
  "search m [] = m []"
| "search m (c # cs) = (case m (c # cs) of Some r \<Rightarrow> Some r | None \<Rightarrow> search m cs)"

text \<open>A literal followed by \<open>(\d+)\<close>, matched at the start of \<open>s\<close>: the greedy capture
  and what follows it.\<close>

definition lit_digits :: "string \<Rightarrow> string \<Rightarrow> (string \<times> string) option" where
  "lit_digits lit s =
     (if prefix lit s
      then (let t = drop (length lit) s; ds = takeWhile is_digit t
            in if ds = [] then None else Some (ds, dropWhile is_digit t))
      else None)"

text \<open>\<open>/post-(\d+)/\<close> at the start of \<open>s\<close>.\<close>

definition re_post :: "string \<Rightarrow> string option" where
  "re_post s = map_option fst (lit_digits ''post-'' s)"

text \<open>\<open>/\/jokes\/joke\/(\d+)(?:\/|$)/\<close> at the start of \<open>s\<close>. After the greedy digits a
  slash or the end must follow; giving digits back never helps, since a digit would follow.\<close>

definition re_joke :: "string \<Rightarrow> string option" where
  "re_joke s =
     (case lit_digits ''/jokes/joke/'' s of
        None \<Rightarrow> None
      | Some (ds, rest) \<Rightarrow> if rest = [] \<or> hd rest = SLASH then Some ds else None)"

text \<open>\<open>/\/satire\/article\/(\d+)\b/\<close> at the start of \<open>s\<close>. The boundary after the last
  digit needs the end or a non-word character; giving digits back never helps.\<close>

definition re_satire :: "string \<Rightarrow> string option" where
  "re_satire s =
     (case lit_digits ''/satire/article/'' s of
        None \<Rightarrow> None
      | Some (ds, rest) \<Rightarrow> if rest = [] \<or> \<not> is_word_char (hd rest) then Some ds else None)"

text \<open>ASCII upper-casing, the canonicalisation of \<open>/.../i\<close> as far as a pattern of ASCII
  letters can see it (a character outside ASCII never canonicalises to an ASCII one).\<close>

definition ascii_upper :: "char \<Rightarrow> char" where
  "ascii_upper c =
     (case map_of (zip ''abcdefghijklmnopqrstuvwxyz'' ''ABCDEFGHIJKLMNOPQRSTUVWXYZ'') c of
        None \<Rightarrow> c
      | Some d \<Rightarrow> d)"

text \<open>A pattern of literal characters under the flag \<open>i\<close>, at the start of \<open>s\<close>: each
  character is compared after canonicalisation.\<close>

fun match_ci :: "string \<Rightarrow> string \<Rightarrow> bool" where
  "match_ci [] s = True"
| "match_ci (p # ps) [] = False"
| "match_ci (p # ps) (c # cs) = (ascii_upper c = ascii_upper p \<and> match_ci ps cs)"

definition test_ci :: "string \<Rightarrow> string \<Rightarrow> bool" where
  "test_ci pat s = (search (\<lambda>t. if match_ci pat t then Some () else None) s \<noteq> None)"

text \<open>\<open>/false/i.test(s)\<close>.\<close>

definition test_false_i :: "string \<Rightarrow> bool" where
  "test_false_i s = test_ci ''false'' s"

section \<open>Identity resolvers\<close>

text \<open>\<open>x || ""\<close> for a string or \<open>null\<close>.\<close>

definition or_empty :: "string option \<Rightarrow> string" where
  "or_empty v = (case v of None \<Rightarrow> [] | Some s \<Rightarrow> s)"

text \<open>\<open>getArticleIdFromUrl\<close> of \<open>earki.js\<close>.\<close>

definition getArticleIdFromUrl :: "platform \<Rightarrow> string \<Rightarrow> string" where
  "getArticleIdFromUrl P u =
     (case URL_parse P u of
        None \<Rightarrow> sha1 P u
      | Some parsed \<Rightarrow>
          (case search re_post (pathname parsed) of
             Some d \<Rightarrow> d
           | None \<Rightarrow> sha1 P u))"

text \<open>\<open>getArticleIdFromUrl\<close> of \<open>earki2_jokes.js\<close>.\<close>

definition getArticleIdFromUrl_jokes :: "string \<Rightarrow> string option" where
  "getArticleIdFromUrl_jokes u = search re_joke u"

text \<open>\<open>getArticleIdFromUrl\<close> of \<open>earki_satire_scraper.js\<close>.\<close>

definition getArticleIdFromUrl_satire :: "string \<Rightarrow> string option" where
  "getArticleIdFromUrl_satire u = search re_satire u"

text \<open>\<open>s.split("/")\<close>.\<close>

fun split_slash :: "string \<Rightarrow> string list" where
  "split_slash [] = [[]]"
| "split_slash (c # cs) =
     (if c = SLASH then [] # split_slash cs
      else (case split_slash cs of [] \<Rightarrow> [[c]] | p # ps \<Rightarrow> (c # p) # ps))"

text \<open>\<open>pathname.split("/").filter(Boolean)\<close> and the last element \<open>|| dflt\<close>.\<close>

definition last_segment :: "string \<Rightarrow> string option" where
  "last_segment path =
     (let parts = filter (\<lambda>p. p \<noteq> []) (split_slash path)
      in if parts = [] then None else Some (last parts))"

text \<open>\<open>slugFromUrl\<close> of the fact-watch scraper.\<close>

definition slugFromUrl :: "platform \<Rightarrow> string \<Rightarrow> string" where
  "slugFromUrl P u =
     (case URL_parse P u of
        None \<Rightarrow> []
      | Some parsed \<Rightarrow> or_empty (last_segment (pathname parsed)))"

text \<open>\<open>hostnamePretty\<close>, \<open>categoryFromSlug\<close> and \<open>normalizeDateISO\<close> of \<open>earki.js\<close>.\<close>

definition hostnamePretty :: "platform \<Rightarrow> string \<Rightarrow> string option" where
  "hostnamePretty P u =
     (case URL_parse P u of
        None \<Rightarrow> None
      | Some parsed \<Rightarrow>
          Some (if prefix ''www.'' (hostname parsed) then drop 4 (hostname parsed)
                else hostname parsed))"

definition categoryFromSlug :: "platform \<Rightarrow> string option \<Rightarrow> string option" where
  "categoryFromSlug P categoryHref =
     (case categoryHref of
        None \<Rightarrow> None
      | Some h \<Rightarrow>
          if h = [] then None
          else (case URL_parse P h of
                  None \<Rightarrow> None
                | Some parsed \<Rightarrow> last_segment (pathname parsed)))"

definition normalizeDateISO :: "platform \<Rightarrow> string option \<Rightarrow> string option" where
  "normalizeDateISO P dt =
     (case dt of
        None \<Rightarrow> None
      | Some s \<Rightarrow> if s = [] then None else Date_toISOString P s)"

section \<open>The offset pager of earki.js (jachai.org)\<close>

definition START_PAGE :: nat where "START_PAGE = 1"
definition MAX_PAGES :: nat where "MAX_PAGES = 500"

text \<open>One \<open>article.list-view\<close> element of a list page, as the callback of
  \<open>scrapeListPage\<close> reads it: the title link (its \<open>href\<close> and \<open>textContent\<close>), the
  \<open>href\<close> of the category link and the \<open>content\<close> attribute of the date.\<close>

record list_node =
  titleA :: "(string \<times> string) option"
  catA :: "string option"
  dateMeta :: "string option"

record item =
  it_url :: string
  it_headline :: string
  it_categoryHref :: "string option"
  it_published_at_raw :: "string option"

definition node_item :: "list_node \<Rightarrow> item option" where
  "node_item el =
     (case titleA el of
        None \<Rightarrow> None
      | Some (href, text) \<Rightarrow>
          if href \<noteq> [] \<and> trim text \<noteq> []
          then Some \<lparr>it_url = href, it_headline = trim text,
                     it_categoryHref = catA el, it_published_at_raw = dateMeta el\<rparr>
          else None)"

text \<open>\<open>scrapeListPage\<close>: the \<open>map\<close> and the \<open>filter((x) => x.url && x.headline)\<close>.\<close>

definition scrapeListPage :: "list_node list \<Rightarrow> item list" where
  "scrapeListPage nodes = List.map_filter node_item nodes"

text \<open>What the renderer answers. A list page: an exception inside the \<open>try\<close> (navigation
  timeout), or the HTTP status (\<open>0\<close> when there is no response object) and the
  \<open>article.list-view\<close> elements. An article page (\<open>fetchArticleContent\<close>): an exception, or
  the text of \<open>section.entry-body\<close>, \<open>null\<close> without that element.\<close>

datatype list_result = NavError | Listing nat "list_node list"

datatype fetch_result = Threw | Fetched "string option"

text \<open>The site: the list page of each number, and the article page for the \<open>i\<close>-th item of
  page \<open>pnum\<close>.\<close>

record jachai_env =
  list_page :: "nat \<Rightarrow> list_result"
  article :: "nat \<Rightarrow> nat \<Rightarrow> string \<Rightarrow> fetch_result"

text \<open>The state of a run of an offset pager: the files, the counter \<open>total\<close>, and two
  ghost fields, the list pages navigated to and the records written with the page each
  came from.\<close>

record run_state =
  fsys :: filesys
  total :: nat
  fetched :: "nat list"
  persisted :: "(nat \<times> row) list"

datatype 'a ctl = Break 'a | Next 'a

text \<open>The object literal \<open>row\<close> in the loop over the items.\<close>

definition make_row :: "platform \<Rightarrow> item \<Rightarrow> string option \<Rightarrow> row" where
  "make_row P it c =
     \<lparr>article_id = getArticleIdFromUrl P (it_url it),
      publisher = hostnamePretty P (it_url it),
      source = it_url it,
      category = categoryFromSlug P (it_categoryHref it),
      published_at = normalizeDateISO P (it_published_at_raw it),
      headline = it_headline it,
      content = c,
      label = 0\<rparr>"

text \<open>\<open>for (const it of items)\<close>. An exception of \<open>fetchArticleContent\<close> reaches the
  \<open>catch\<close> of the page loop, which breaks.\<close>

fun save_items ::
  "platform \<Rightarrow> jachai_env \<Rightarrow> nat \<Rightarrow> nat \<Rightarrow> item list \<Rightarrow> run_state \<Rightarrow> run_state ctl" where
  "save_items P E pnum i [] s = Next s"
| "save_items P E pnum i (it # its) s =
     (case article E pnum i (it_url it) of
        Threw \<Rightarrow> Break s
      | Fetched c \<Rightarrow>
          save_items P E pnum (Suc i) its
            (s\<lparr>fsys := appendRow (make_row P it c) (fsys s),
               total := Suc (total s),
               persisted := persisted s @ [(pnum, make_row P it c)]\<rparr>))"

text \<open>The body of \<open>for (let pnum = START_PAGE; pnum <= MAX_PAGES; pnum++)\<close>.\<close>

definition list_step :: "platform \<Rightarrow> jachai_env \<Rightarrow> nat \<Rightarrow> run_state \<Rightarrow> run_state ctl" where
  "list_step P E pnum s =
     (let s1 = s\<lparr>fetched := fetched s @ [pnum]\<rparr> in
      case list_page E pnum of
        NavError \<Rightarrow> Break s1
      | Listing status nodes \<Rightarrow>
          if status \<ge> 400 then Break s1
          else if nodes = [] then Break s1
          else save_items P E pnum 0 (scrapeListPage nodes) s1)"

function page_loop :: "platform \<Rightarrow> jachai_env \<Rightarrow> nat \<Rightarrow> run_state \<Rightarrow> run_state" where
  "page_loop P E pnum s =
     (if pnum \<le> MAX_PAGES
      then (case list_step P E pnum s of
              Break s' \<Rightarrow> s'
            | Next s' \<Rightarrow> page_loop P E (Suc pnum) s')
      else s)"
  by pat_completeness auto
termination
  by (relation "measure (\<lambda>(P, E, pnum, s). Suc MAX_PAGES - pnum)") auto

declare page_loop.simps [simp del]

definition main_jachai :: "platform \<Rightarrow> jachai_env \<Rightarrow> filesys \<Rightarrow> run_state" where
  "main_jachai P E f =
     page_loop P E START_PAGE \<lparr>fsys = ensureOutputs f, total = 0, fetched = [], persisted = []\<rparr>"

section \<open>The offset pager of the fact-watch scraper\<close>

definition FIRST_PAGE :: nat where "FIRST_PAGE = 1"
definition LAST_PAGE :: nat where "LAST_PAGE = 70"

text \<open>What the callback of \<open>page.evaluate\<close> in \<open>scrapeSinglePost\<close> reads from a post: the
  \<open>textContent\<close> of the heading and of the date, the \<open>innerText\<close> of the
  \<open>.factcheck-schema\<close> block (\<open>None\<close> for a missing element), and the text of
  \<open>section.fw-content\<close> after the callback's clean-up (empty without that element).\<close>

record post_data =
  pd_h1 :: "string option"
  pd_date :: "string option"
  pd_schema :: "string option"
  pd_content :: string

datatype post_page = PostThrew | NoSchema | Post post_data

definition scrapeSinglePost :: "platform \<Rightarrow> post_page \<Rightarrow> string \<Rightarrow> row option" where
  "scrapeSinglePost P pg u =
     (case pg of
        PostThrew \<Rightarrow> None
      | NoSchema \<Rightarrow> None
      | Post d \<Rightarrow>
          (let headline = trim (or_empty (pd_h1 d));
               published_at = trim (or_empty (pd_date d));
               schemaText = toLowerCase P (or_empty (pd_schema d));
               content = pd_content d;
               label = (if test_false_i schemaText then 0 else 1)
           in Some \<lparr>article_id = slugFromUrl P u,
                     publisher = Some ''fact-watch'',
                     source = u,
                     category = Some ''fact-check'',
                     published_at = Some published_at,
                     headline = headline,
                     content = (if content = [] then None else Some content),
                     label = label\<rparr>))"

text \<open>The callback of \<open>$$eval\<close> in \<open>collectCardUrlsOnList\<close>, over the \<open>href\<close> attributes
  of the links: the set \<open>seen\<close> always holds the elements of \<open>out\<close>. A \<open>href\<close> that does
  not resolve is skipped.\<close>

fun collect_abs :: "platform \<Rightarrow> string \<Rightarrow> string list \<Rightarrow> string list \<Rightarrow> string list" where
  "collect_abs P origin [] out = out"
| "collect_abs P origin (href # hs) out =
     (if href = [] then collect_abs P origin hs out
      else (case URL_resolve P origin href of
              None \<Rightarrow> collect_abs P origin hs out
            | Some a \<Rightarrow>
                if a \<in> set out then collect_abs P origin hs out
                else collect_abs P origin hs (out @ [a])))"

text \<open>The site: for each page number the origin and the \<open>href\<close>s of the cards (\<open>None\<close>
  when the navigation or \<open>waitForSelector\<close> throws), and the post page for the \<open>i\<close>-th
  card of page \<open>pageNum\<close>.\<close>

record fw_env =
  fw_list :: "nat \<Rightarrow> (string \<times> string list) option"
  fw_post :: "nat \<Rightarrow> nat \<Rightarrow> string \<Rightarrow> post_page"

text \<open>\<open>for (const rec of results)\<close>.\<close>

fun save_results :: "nat \<Rightarrow> row option list \<Rightarrow> nat \<Rightarrow> run_state \<Rightarrow> nat \<times> run_state" where
  "save_results pageNum [] saved s = (saved, s)"
| "save_results pageNum (None # rs) saved s = save_results pageNum rs saved s"
| "save_results pageNum (Some r # rs) saved s =
     save_results pageNum rs (Suc saved)
       (s\<lparr>fsys := writeRecord factwatch_out r (fsys s),
          persisted := persisted s @ [(pageNum, r)]\<rparr>)"

text \<open>\<open>scrapeListPage(browser, pageNum)\<close>: the number of records saved. The tasks of one
  page run concurrently; \<open>Promise.all\<close> returns their results in the order of the cards.\<close>

definition scrapeListPage_fw ::
  "platform \<Rightarrow> fw_env \<Rightarrow> nat \<Rightarrow> run_state \<Rightarrow> nat \<times> run_state" where
  "scrapeListPage_fw P E pageNum s =
     (let s1 = s\<lparr>fetched := fetched s @ [pageNum]\<rparr> in
      case fw_list E pageNum of
        None \<Rightarrow> (0, s1)
      | Some (origin, hrefs) \<Rightarrow>
          (let postUrls = collect_abs P origin hrefs [] in
           if postUrls = [] then (0, s1)
           else save_results pageNum
                  (map (\<lambda>(i, u). scrapeSinglePost P (fw_post E pageNum i u) u)
                       (enumerate 0 postUrls))
                  0 s1))"

text \<open>\<open>for (let p = FIRST_PAGE; p <= LAST_PAGE; p++)\<close> of \<open>main\<close>.\<close>

function fw_loop :: "platform \<Rightarrow> fw_env \<Rightarrow> nat \<Rightarrow> run_state \<Rightarrow> run_state" where
  "fw_loop P E p s =
     (if p \<le> LAST_PAGE
      then (case scrapeListPage_fw P E p s of
              (saved, s') \<Rightarrow> fw_loop P E (Suc p) (s'\<lparr>total := total s' + saved\<rparr>))
      else s)"
  by pat_completeness auto
termination
  by (relation "measure (\<lambda>(P, E, p, s). Suc LAST_PAGE - p)") auto

declare fw_loop.simps [simp del]

definition main_fw :: "platform \<Rightarrow> fw_env \<Rightarrow> filesys \<Rightarrow> run_state" where
  "main_fw P E f =
     fw_loop P E FIRST_PAGE
       \<lparr>fsys = ensureOut factwatch_out f, total = 0, fetched = [], persisted = []\<rparr>"

section \<open>The incremental loader of earki2_jokes.js\<close>

definition MAX_CLICKS :: nat where "MAX_CLICKS = 100000"

text \<open>\<open>MAX_ARTICLES = Infinity\<close> is \<open>None\<close>.\<close>

definition MAX_ARTICLES :: "nat option" where "MAX_ARTICLES = None"

text \<open>What the callback of \<open>page.evaluate\<close> in \<open>scrapeOneArticle\<close> returns.\<close>

record article_eval =
  ae_headline :: "string option"
  ae_published_at :: "string option"
  ae_content :: "string option"

definition buildRecord :: "string \<Rightarrow> article_eval \<Rightarrow> row" where
  "buildRecord u r =
     \<lparr>article_id = or_empty (getArticleIdFromUrl_jokes u),
      publisher = Some ''earki'',
      source = u,
      category = Some ''jokes'',
      published_at = Some (or_empty (ae_published_at r)),
      headline = or_empty (ae_headline r),
      content = ae_content r,
      label = 0\<rparr>"

text \<open>The site. \<open>cards_at r\<close> is what the list shows when \<open>collectLinkObjs\<close> runs for the
  \<open>r\<close>-th time: the origin and the \<open>href\<close>s of the links, \<open>None\<close> when
  \<open>waitForSelector\<close> times out. \<open>no_more k\<close> and \<open>button k\<close> are what the \<open>k\<close>-th
  iteration of the click loop sees: the end marker, and the button (\<open>None\<close> without one,
  else whether it is visible). \<open>joke_page n u\<close> is what the \<open>n\<close>-th navigation to an
  article, to the URL \<open>u\<close>, gives: \<open>None\<close> when it throws.\<close>

record jokes_env =
  start_ok :: bool
  cards_at :: "nat \<Rightarrow> (string \<times> string list) option"
  no_more :: "nat \<Rightarrow> bool"
  button :: "nat \<Rightarrow> bool option"
  joke_page :: "nat \<Rightarrow> string \<Rightarrow> article_eval option"

text \<open>The state of a run: the files, \<open>seenIds\<close>, \<open>totalSaved\<close>, and two ghost fields,
  the number of calls of \<open>processNewCardsOnList\<close> so far and the log of the calls of
  \<open>scrapeOneArticle\<close>: the round, the URL and the record (\<open>None\<close> for \<open>null\<close>).\<close>

record jokes_state =
  jfs :: filesys
  seenIds :: "string set"
  totalSaved :: nat
  rounds :: nat
  log :: "(nat \<times> string \<times> row option) list"

text \<open>An exception that reaches \<open>main().catch\<close> ends the process with exit code 1.\<close>

datatype 'a run = Completed 'a | Failed 'a

fun final :: "'a run \<Rightarrow> 'a" where
  "final (Completed s) = s"
| "final (Failed s) = s"

text \<open>The callback of \<open>$$eval\<close> in \<open>collectLinkObjs\<close>; here a \<open>href\<close> that does not
  resolve throws.\<close>

fun collect_abs_strict ::
  "platform \<Rightarrow> string \<Rightarrow> string list \<Rightarrow> string list \<Rightarrow> string list option" where
  "collect_abs_strict P origin [] out = Some out"
| "collect_abs_strict P origin (href # hs) out =
     (if href = [] then collect_abs_strict P origin hs out
      else (case URL_resolve P origin href of
              None \<Rightarrow> None
            | Some a \<Rightarrow>
                if a \<in> set out then collect_abs_strict P origin hs out
                else collect_abs_strict P origin hs (out @ [a])))"

definition collectLinkObjs ::
  "platform \<Rightarrow> (string \<times> string list) option \<Rightarrow> (string \<times> string) list option" where
  "collectLinkObjs P view =
     (case view of
        None \<Rightarrow> None
      | Some (origin, hrefs) \<Rightarrow>
          (case collect_abs_strict P origin hrefs [] of
             None \<Rightarrow> None
           | Some urls \<Rightarrow> Some (map (\<lambda>u. (u, or_empty (getArticleIdFromUrl_jokes u))) urls)))"

definition scrapeOneArticle :: "jokes_env \<Rightarrow> nat \<Rightarrow> string \<Rightarrow> row option" where
  "scrapeOneArticle E n u = map_option (buildRecord u) (joke_page E n u)"

text \<open>\<open>MAX_ARTICLES !== Infinity && totalSaved >= MAX_ARTICLES\<close>.\<close>

definition cap_reached :: "jokes_state \<Rightarrow> bool" where
  "cap_reached s = (case MAX_ARTICLES of None \<Rightarrow> False | Some m \<Rightarrow> totalSaved s \<ge> m)"

text \<open>\<open>for (const { url, id } of newOnes)\<close> in round \<open>r\<close>.\<close>

fun save_new :: "jokes_env \<Rightarrow> nat \<Rightarrow> (string \<times> string) list \<Rightarrow> jokes_state \<Rightarrow> jokes_state" where
  "save_new E r [] s = s"
| "save_new E r ((u, i) # rest) s =
     (if cap_reached s then s
      else (case scrapeOneArticle E (length (log s)) u of
              None \<Rightarrow> save_new E r rest (s\<lparr>log := log s @ [(r, u, None)]\<rparr>)
            | Some rec \<Rightarrow>
                save_new E r rest
                  (s\<lparr>jfs := writeRecord jokes_out rec (jfs s),
                     seenIds := insert i (seenIds s),
                     totalSaved := Suc (totalSaved s),
                     log := log s @ [(r, u, Some rec)]\<rparr>)))"

definition processNewCardsOnList ::
  "platform \<Rightarrow> jokes_env \<Rightarrow> jokes_state \<Rightarrow> jokes_state run" where
  "processNewCardsOnList P E s =
     (let r = rounds s; s0 = s\<lparr>rounds := Suc r\<rparr> in
      case collectLinkObjs P (cards_at E r) of
        None \<Rightarrow> Failed s0
      | Some linkObjs \<Rightarrow>
          (let newOnes = filter (\<lambda>(u, i). i \<noteq> [] \<and> i \<notin> seenIds s) linkObjs
           in Completed (save_new E r newOnes s0)))"

text \<open>\<open>while (true)\<close> of \<open>main\<close>, with the value of \<open>clicks\<close>.\<close>

function click_loop ::
  "platform \<Rightarrow> jokes_env \<Rightarrow> nat \<Rightarrow> jokes_state \<Rightarrow> jokes_state run" where
  "click_loop P E clicks s =
     (if no_more E clicks then Completed s
      else (case button E clicks of
              None \<Rightarrow> Completed s
            | Some visible \<Rightarrow>
                (case (if visible then processNewCardsOnList P E s else Completed s) of
                   Failed s' \<Rightarrow> Failed s'
                 | Completed s' \<Rightarrow>
                     if Suc clicks \<ge> MAX_CLICKS then Completed s'
                     else if cap_reached s' then Completed s'
                     else click_loop P E (Suc clicks) s')))"
  by pat_completeness auto
termination
  by (relation "measure (\<lambda>(P, E, clicks, s). MAX_CLICKS - clicks)") auto

declare click_loop.simps [simp del]

definition main_jokes :: "platform \<Rightarrow> jokes_env \<Rightarrow> filesys \<Rightarrow> jokes_state run" where
  "main_jokes P E f =
     (let s0 = \<lparr>jfs = ensureOut jokes_out f, seenIds = {}, totalSaved = 0, rounds = 0, log = []\<rparr>
      in if \<not> start_ok E then Failed s0
         else (case processNewCardsOnList P E s0 of
                 Failed s \<Rightarrow> Failed s
               | Completed s \<Rightarrow> click_loop P E 0 s))"

section \<open>The record of earki_satire_scraper.js\<close>

text \<open>The object literal \<open>record\<close> in the loop over the links of \<open>main\<close>.\<close>

definition satire_record :: "string \<Rightarrow> article_eval \<Rightarrow> row" where
  "satire_record u r =
     \<lparr>article_id = or_empty (getArticleIdFromUrl_satire u),
      publisher = Some ''earki'',
      source = u,
      category = Some ''article'',
      published_at = Some (or_empty (ae_published_at r)),
      headline = or_empty (ae_headline r),
      content = ae_content r,
      label = 0\<rparr>"

section \<open>Vocabulary of the properties\<close>

text \<open>The definitions of this section are not code of the scrapers: they name what the
  properties below talk about.\<close>

subsection \<open>Lines of a file\<close>

text \<open>The lines of a text are counted by their terminators.\<close>

definition count_lines :: "string \<Rightarrow> nat" where
  "count_lines s = length (filter (\<lambda>c. c = LF) s)"

definition file_lines :: "filesys \<Rightarrow> string \<Rightarrow> nat" where
  "file_lines f p = (case files f p of None \<Rightarrow> 0 | Some d \<Rightarrow> count_lines d)"

definition opt_lines :: "string option \<Rightarrow> nat" where
  "opt_lines v = (case v of None \<Rightarrow> 0 | Some s \<Rightarrow> count_lines s)"

text \<open>The line feeds inside the string fields of a record.\<close>

definition row_newlines :: "row \<Rightarrow> nat" where
  "row_newlines r =
     count_lines (article_id r) + opt_lines (publisher r) + count_lines (source r) +
     opt_lines (category r) + opt_lines (published_at r) + count_lines (headline r) +
     opt_lines (content r)"

text \<open>A decoder for the escapes of \<open>json_escape_char\<close>. It is applied to encodings
  only, to show that the encoding loses nothing.\<close>

definition hex_value :: "char \<Rightarrow> nat" where
  "hex_value c = (case map_of (zip ''0123456789abcdef'' [0..<16]) c of None \<Rightarrow> 0 | Some n \<Rightarrow> n)"

definition json_unescape_char :: "char \<Rightarrow> char" where
  "json_unescape_char c =
     (if c = CHR ''b'' then CHR 0x08
      else if c = CHR ''t'' then CHR 0x09
      else if c = CHR ''n'' then LF
      else if c = CHR ''f'' then CHR 0x0C
      else if c = CHR ''r'' then CR
      else c)"

fun json_unescape :: "string \<Rightarrow> string" where
  "json_unescape [] = []"
| "json_unescape [c] = [c]"
| "json_unescape (c # d # cs) =
     (if c = BSL
      then (if d = CHR ''u''
            then char_of (16 * hex_value (cs ! 2) + hex_value (cs ! 3)) # json_unescape (drop 4 cs)
            else json_unescape_char d # json_unescape cs)
      else c # json_unescape (d # cs))"

subsection \<open>Substrings\<close>

text \<open>\<open>t\<close> contains \<open>pat\<close>, the case of the ASCII letters ignored.\<close>

definition contains_ci :: "string \<Rightarrow> string \<Rightarrow> bool" where
  "contains_ci pat t = (\<exists>pre w post. t = pre @ w @ post \<and> map ascii_upper w = map ascii_upper pat)"

subsection \<open>Runs of the offset pagers\<close>

fun ctl_state :: "'a ctl \<Rightarrow> 'a" where
  "ctl_state (Break s) = s"
| "ctl_state (Next s) = s"

text \<open>The list pages at which the jachai.org pager stops: the navigation throws, the
  status is 400 or more, or there is no \<open>article.list-view\<close> element.\<close>

definition stop_page :: "list_result \<Rightarrow> bool" where
  "stop_page lr = (case lr of NavError \<Rightarrow> True | Listing status nodes \<Rightarrow> status \<ge> 400 \<or> nodes = [])"

text \<open>A record of page \<open>p\<close> of jachai.org: made from the \<open>j\<close>-th item of that page's
  listing and from what the navigation to that item's URL gave.\<close>

definition row_of_page :: "platform \<Rightarrow> jachai_env \<Rightarrow> nat \<times> row \<Rightarrow> bool" where
  "row_of_page P E e =
     (\<exists>status nodes j c. list_page E (fst e) = Listing status nodes \<and> status < 400 \<and>
        j < length (scrapeListPage nodes) \<and>
        article E (fst e) j (it_url (scrapeListPage nodes ! j)) = Fetched c \<and>
        snd e = make_row P (scrapeListPage nodes ! j) c)"

text \<open>What a stretch of a run adds to the state: the pages fetched and the records written.\<close>

definition adds :: "run_state \<Rightarrow> run_state \<Rightarrow> nat list \<Rightarrow> (nat \<times> row) list \<Rightarrow> bool" where
  "adds s s' nf np =
     (fetched s' = fetched s @ nf \<and> persisted s' = persisted s @ np \<and>
      fsys s' = fold appendRow (map snd np) (fsys s) \<and> total s' = total s + length np)"

definition fw_adds :: "run_state \<Rightarrow> run_state \<Rightarrow> nat list \<Rightarrow> (nat \<times> row) list \<Rightarrow> bool" where
  "fw_adds s s' nf np =
     (fetched s' = fetched s @ nf \<and> persisted s' = persisted s @ np \<and>
      fsys s' = fold (writeRecord factwatch_out) (map snd np) (fsys s))"

definition somes :: "'a option list \<Rightarrow> 'a list" where
  "somes xs = List.map_filter id xs"

text \<open>The posts of page \<open>p\<close> of the fact-watch site that \<open>scrapeSinglePost\<close> is called
  on: the index of the card, its URL and what the site answers.\<close>

definition page_posts :: "platform \<Rightarrow> fw_env \<Rightarrow> nat \<Rightarrow> (nat \<times> string \<times> post_page) list" where
  "page_posts P E p =
     (case fw_list E p of
        None \<Rightarrow> []
      | Some (origin, hrefs) \<Rightarrow>
          map (\<lambda>(i, u). (i, u, fw_post E p i u)) (enumerate 0 (collect_abs P origin hrefs [])))"

text \<open>The records of page \<open>p\<close> of the fact-watch site, in the order of its cards.\<close>

definition page_records :: "platform \<Rightarrow> fw_env \<Rightarrow> nat \<Rightarrow> row list" where
  "page_records P E p = somes (map (\<lambda>(i, u, pg). scrapeSinglePost P pg u) (page_posts P E p))"

definition fw_pages :: "nat \<Rightarrow> nat list" where
  "fw_pages p = [p..<Suc LAST_PAGE]"

definition fw_records :: "platform \<Rightarrow> fw_env \<Rightarrow> nat \<Rightarrow> (nat \<times> row) list" where
  "fw_records P E p = concat (map (\<lambda>q. map (Pair q) (page_records P E q)) (fw_pages p))"

subsection \<open>Runs of the incremental loader\<close>

text \<open>A URL is dispatched again only in a later round, and only when the earlier dispatch
  gave no record.\<close>

definition redispatch_only_after_failure :: "(nat \<times> string \<times> row option) list \<Rightarrow> bool" where
  "redispatch_only_after_failure lg =
     (\<forall>j<length lg. \<forall>i<j. fst (snd (lg ! i)) = fst (snd (lg ! j))
        \<longrightarrow> fst (lg ! i) < fst (lg ! j) \<and> snd (snd (lg ! i)) = None)"

text \<open>The URLs given to \<open>scrapeOneArticle\<close> and the records written, in order.\<close>

definition dispatched :: "(nat \<times> string \<times> row option) list \<Rightarrow> string list" where
  "dispatched lg = map (\<lambda>e. fst (snd e)) lg"

definition saved_rows :: "(nat \<times> string \<times> row option) list \<Rightarrow> row list" where
  "saved_rows lg = List.map_filter (\<lambda>e. snd (snd e)) lg"

text \<open>The invariant of a run: inside round \<open>r\<close>, and between two rounds.\<close>

definition entry_ok ::
  "jokes_env \<Rightarrow> string set \<Rightarrow> nat \<times> string \<times> row option \<Rightarrow> bool" where
  "entry_ok E seen e =
     (getArticleIdFromUrl_jokes (fst (snd e)) \<noteq> None \<and>
      (\<forall>rec. snd (snd e) = Some rec \<longrightarrow>
         or_empty (getArticleIdFromUrl_jokes (fst (snd e))) \<in> seen \<and>
         (\<exists>n ev. joke_page E n (fst (snd e)) = Some ev \<and> rec = buildRecord (fst (snd e)) ev)))"

definition pending_ok :: "nat \<Rightarrow> (nat \<times> string \<times> row option) list \<Rightarrow> string \<times> string \<Rightarrow> bool" where
  "pending_ok r lg p =
     (snd p = or_empty (getArticleIdFromUrl_jokes (fst p)) \<and> snd p \<noteq> [] \<and>
      (\<forall>e\<in>set lg. fst (snd e) = fst p \<longrightarrow> fst e < r \<and> snd (snd e) = None))"

definition round_inv :: "jokes_env \<Rightarrow> filesys \<Rightarrow> nat \<Rightarrow> jokes_state \<Rightarrow> bool" where
  "round_inv E f0 r s =
     ((\<forall>e\<in>set (log s). fst e \<le> r \<and> entry_ok E (seenIds s) e) \<and>
      redispatch_only_after_failure (log s) \<and>
      jfs s = fold (writeRecord jokes_out) (saved_rows (log s)) f0)"

definition jokes_inv :: "jokes_env \<Rightarrow> filesys \<Rightarrow> jokes_state \<Rightarrow> bool" where
  "jokes_inv E f0 s =
     ((\<forall>e\<in>set (log s). fst e < rounds s \<and> entry_ok E (seenIds s) e) \<and>
      redispatch_only_after_failure (log s) \<and>
      jfs s = fold (writeRecord jokes_out) (saved_rows (log s)) f0)"

text \<open>Every entry of the log holds what \<open>scrapeOneArticle\<close> gave for its URL: the
  \<open>i\<close>-th entry is the \<open>i\<close>-th navigation to an article page.\<close>

definition log_pages :: "jokes_env \<Rightarrow> (nat \<times> string \<times> row option) list \<Rightarrow> bool" where
  "log_pages E lg =
     (\<forall>i<length lg. snd (snd (lg ! i)) = scrapeOneArticle E i (fst (snd (lg ! i))))"

section \<open>Examples\<close>

text \<open>A platform for the examples. Its functions give the values of Node.js at the
  strings the examples use: \<open>example_URL\<close> on \<open>https\<close> URLs with a lower-case host and
  a plain path, and on strings without a scheme (which do not parse); \<open>example_resolve\<close>
  on absolute \<open>https\<close> URLs and on paths that start with one slash; \<open>example_sha1\<close> and
  \<open>example_Date\<close> on the strings listed; \<open>ascii_lower\<close> on ASCII text.\<close>

definition example_URL :: "string \<Rightarrow> url option" where
  "example_URL s =
     (if prefix ''https://'' s
      then (let r = drop 8 s;
                h = takeWhile (\<lambda>c. c \<notin> set ''/?#'') r;
                t = dropWhile (\<lambda>c. c \<notin> set ''/?#'') r;
                p = takeWhile (\<lambda>c. c \<notin> set ''?#'') t
            in if h = [] then None
               else Some \<lparr>pathname = (if p = [] then ''/'' else p), hostname = h\<rparr>)
      else None)"

definition example_resolve :: "string \<Rightarrow> string \<Rightarrow> string option" where
  "example_resolve base href =
     (if prefix ''https://'' href then Some href
      else if prefix ''/'' href then Some (base @ href)
      else None)"

definition example_sha1 :: "string \<Rightarrow> string" where
  "example_sha1 s =
     (if s = ''not a url'' then ''d7aad9a0157a961b97833ff47c0d06f7add5a336''
      else if s = ''https://www.jachai.org/?p=77'' then ''1dd07313533d61289271f41f7d30b6c4fd84d364''
      else [])"

definition example_Date :: "string \<Rightarrow> string option" where
  "example_Date s =
     (if s = ''2023-08-22T14:38:19+06:00'' then Some ''2023-08-22T08:38:19.000Z'' else None)"

definition ascii_lower :: "char \<Rightarrow> char" where
  "ascii_lower c =
     (case map_of (zip ''ABCDEFGHIJKLMNOPQRSTUVWXYZ'' ''abcdefghijklmnopqrstuvwxyz'') c of
        None \<Rightarrow> c
      | Some d \<Rightarrow> d)"

definition example_platform :: platform where
  "example_platform =
     \<lparr>URL_parse = example_URL, URL_resolve = example_resolve, sha1 = example_sha1,
      Date_toISOString = example_Date, toLowerCase = map ascii_lower\<rparr>"

definition empty_fs :: filesys where
  "empty_fs = \<lparr>dirs = {}, files = Map.empty\<rparr>"

text \<open>A record whose content has two lines.\<close>

definition sample_row :: row where
  "sample_row = \<lparr>article_id = ''1'', publisher = None, source = ''u'', category = None,
     published_at = None, headline = ''h'', content = Some ''a\<newline>b'', label = 0\<rparr>"

definition sample_eval :: article_eval where
  "sample_eval = \<lparr>ae_headline = Some ''H'', ae_published_at = Some ''2023-08-22T14:38:19+06:00'',
     ae_content = Some ''c''\<rparr>"

text \<open>A jokes list that shows the same two links in every round, a joke and a link that is
  not a joke page; the first navigation to an article fails, the later ones succeed; the end
  marker shows after one click.\<close>

definition example_jokes_env :: jokes_env where
  "example_jokes_env =
     \<lparr>start_ok = True,
      cards_at = (\<lambda>r. Some (''https://www.earki.co'',
                            [''/jokes/joke/11081/a'', ''/jokes/joke-of-the-day''])),
      no_more = (\<lambda>k. k \<ge> 1),
      button = (\<lambda>k. Some True),
      joke_page = (\<lambda>n u. if n = 0 then None else Some sample_eval)\<rparr>"

text \<open>A fact-watch site whose page 5 shows no card and whose other pages show one.\<close>

definition sample_post :: post_data where
  "sample_post = \<lparr>pd_h1 = Some ''H'', pd_date = Some ''d'', pd_schema = Some ''Rating: False'',
     pd_content = ''c''\<rparr>"

definition example_fw_env :: fw_env where
  "example_fw_env =
     \<lparr>fw_list = (\<lambda>p. if p = 5 then Some (''https://www.fact-watch.org'', [])
                     else Some (''https://www.fact-watch.org'', [''/claim-a/''])),
      fw_post = (\<lambda>p i u. Post sample_post)\<rparr>"

definition sample_fw_row :: row where
  "sample_fw_row =
     \<lparr>article_id = ''claim-a'', publisher = Some ''fact-watch'',
      source = ''https://www.fact-watch.org/claim-a/'', category = Some ''fact-check'',
      published_at = Some ''d'', headline = ''H'', content = Some ''c'', label = 0\<rparr>"

text \<open>A jachai.org site whose page 2 answers 404.\<close>

definition sample_node :: list_node where
  "sample_node = \<lparr>titleA = Some (''https://www.jachai.org/fact-checks/post-12345/'', ''T''),
     catA = None, dateMeta = Some ''2023-08-22T14:38:19+06:00''\<rparr>"

definition sample_item :: item where
  "sample_item = \<lparr>it_url = ''https://www.jachai.org/fact-checks/post-12345/'', it_headline = ''T'',
     it_categoryHref = None, it_published_at_raw = Some ''2023-08-22T14:38:19+06:00''\<rparr>"

definition sample_jachai_row :: row where
  "sample_jachai_row =
     \<lparr>article_id = ''12345'', publisher = Some ''jachai.org'',
      source = ''https://www.jachai.org/fact-checks/post-12345/'', category = None,
      published_at = Some ''2023-08-22T08:38:19.000Z'', headline = ''T'',
      content = Some ''body'', label = 0\<rparr>"

definition example_jachai_env :: jachai_env where
  "example_jachai_env =
     \<lparr>list_page = (\<lambda>p. if p = 2 then Listing 404 [] else Listing 200 [sample_node]),
      article = (\<lambda>p i u. Fetched (Some ''body''))\<rparr>"

section \<open>Lemmas\<close>

subsection \<open>The encoders\<close>

lemma str_includes_sublist: "str_includes s sub = sublist sub s"
  by (induction s) (auto simp: sublist_Cons_right)

lemma str_includes_char: "str_includes s [c] = (c \<in> set s)"
  by (induction s) auto

lemma replace_newlines_no_LF: "LF \<notin> set (replace_newlines s)"
  by (induction s rule: replace_newlines.induct) auto

lemma strip_leading_subset: "set (strip_leading ws s) \<subseteq> set s"
proof (induction ws s rule: strip_leading.induct)
  case (1 ws)
  then show ?case by simp
next
  case (2 ws c cs)
  show ?case
  proof (cases "find (\<lambda>w. prefix w (c # cs)) ws")
    case None
    then show ?thesis by simp
  next
    case (Some w)
    have "set (strip_leading ws (drop (length w - 1) cs)) \<subseteq> set (drop (length w - 1) cs)"
      using 2 Some by simp
    also have "\<dots> \<subseteq> set cs" by (rule set_drop_subset)
    finally show ?thesis using Some by auto
  qed
qed

lemma trim_subset: "set (trim s) \<subseteq> set s"
proof -
  have "set (trim s) \<subseteq> set (rev (strip_leading js_whitespace s))"
    unfolding trim_def using strip_leading_subset by (metis set_rev)
  then show ?thesis using strip_leading_subset by fastforce
qed

lemma double_quotes_set: "set (double_quotes s) = set s"
  by (induction s) auto

lemma toCsvField_no_LF: "LF \<notin> set (toCsvField v)"
proof -
  have "LF \<notin> set (trim (replace_newlines s))" for s
    using trim_subset replace_newlines_no_LF by blast
  then show ?thesis
    by (cases v) (simp_all add: toCsvField_def Let_def double_quotes_set)
qed

lemma digit_char_in: "digit_char d \<in> set ''0123456789abcdef''"
proof -
  have "d mod 16 < length ''0123456789abcdef''" by simp
  then show ?thesis unfolding digit_char_def by (rule nth_mem)
qed

lemma digit_char_not_LF: "digit_char d \<noteq> LF" "LF \<noteq> digit_char d"
  using digit_char_in [of d] by auto

lemma string_of_nat_no_LF: "LF \<notin> set (string_of_nat n)"
proof (induction n rule: string_of_nat.induct)
  case (1 n)
  then show ?case
    by (subst string_of_nat.simps) (auto simp: digit_char_not_LF)
qed

lemma json_escape_char_no_LF: "LF \<notin> set (json_escape_char c)"
  by (auto simp: json_escape_char_def digit_char_not_LF)

lemma json_string_no_LF: "LF \<notin> set (json_string s)"
  by (auto simp: json_string_def json_escape_char_no_LF)

lemma json_nullable_no_LF: "LF \<notin> set (json_nullable v)"
  by (cases v) (auto simp: json_nullable_def json_string_no_LF)

lemma JSON_stringify_no_LF: "LF \<notin> set (JSON_stringify r)"
  by (simp add: JSON_stringify_def json_string_no_LF json_nullable_no_LF string_of_nat_no_LF)

lemma count_lines_append: "count_lines (a @ b) = count_lines a + count_lines b"
  by (simp add: count_lines_def)

lemma count_lines_none: "LF \<notin> set s \<Longrightarrow> count_lines s = 0"
  by (induction s) (auto simp: count_lines_def)

lemma join_comma_no_LF: "(\<And>x. x \<in> set xs \<Longrightarrow> LF \<notin> set x) \<Longrightarrow> LF \<notin> set (join_comma xs)"
  by (induction xs rule: join_comma.induct) auto

subsection \<open>Lines written by the sinks\<close>

lemma file_lines_append:
  "file_lines (appendFileSync p d f) q = (if q = p then file_lines f p + count_lines d else file_lines f q)"
  by (auto simp: file_lines_def appendFileSync_def count_lines_append split: option.splits)

lemma count_lines_double_quotes: "count_lines (double_quotes s) = count_lines s"
  by (induction s) (auto simp: count_lines_def)

lemma count_lines_Cons: "count_lines (c # s) = (if c = LF then 1 else 0) + count_lines s"
  by (simp add: count_lines_def)

lemma count_lines_Nil: "count_lines [] = 0"
  by (simp add: count_lines_def)

lemma count_lines_csvEscape_Str: "count_lines (csvEscape (Str s)) = count_lines s"
  by (simp add: csvEscape_def Let_def count_lines_append count_lines_double_quotes
      count_lines_Cons count_lines_Nil)

lemma count_lines_csvEscape_nullable: "count_lines (csvEscape (nullable v)) = opt_lines v"
  by (cases v) (simp_all add: nullable_def opt_lines_def count_lines_csvEscape_Str, simp add: csvEscape_def count_lines_Nil)

lemma count_lines_LF: "count_lines (s @ [LF]) = count_lines s + 1"
  by (simp add: count_lines_def)

lemma writeRecord_lines:
  assumes "JSONL_PATH out \<noteq> CSV_PATH out"
  shows "file_lines (writeRecord out r f) (JSONL_PATH out) = file_lines f (JSONL_PATH out) + 1"
    and "file_lines (writeRecord out r f) (CSV_PATH out) = file_lines f (CSV_PATH out) + 1"
proof -
  have j: "count_lines (JSON_stringify r @ [LF]) = 1"
    by (simp add: count_lines_LF count_lines_none JSON_stringify_no_LF)
  have "LF \<notin> set (join_comma (map toCsvField xs))" for xs
    by (rule join_comma_no_LF) (auto simp: toCsvField_no_LF)
  then have c: "count_lines (join_comma (map toCsvField xs) @ [LF]) = 1" for xs
    by (simp add: count_lines_LF count_lines_none)
  show "file_lines (writeRecord out r f) (JSONL_PATH out) = file_lines f (JSONL_PATH out) + 1"
    using assms j unfolding writeRecord_def Let_def by (simp only: file_lines_append) simp
  show "file_lines (writeRecord out r f) (CSV_PATH out) = file_lines f (CSV_PATH out) + 1"
    using assms c unfolding writeRecord_def Let_def by (simp only: file_lines_append) simp
qed

lemma fold_writeRecord_lines:
  assumes "JSONL_PATH out \<noteq> CSV_PATH out"
  shows "file_lines (fold (writeRecord out) rs f) (JSONL_PATH out) = file_lines f (JSONL_PATH out) + length rs
       \<and> file_lines (fold (writeRecord out) rs f) (CSV_PATH out) = file_lines f (CSV_PATH out) + length rs"
  by (induction rs arbitrary: f) (simp_all add: writeRecord_lines [OF assms])

lemma appendRow_lines:
  "file_lines (appendRow r f) OUT_JSONL = file_lines f OUT_JSONL + 1"
  "file_lines (appendRow r f) OUT_CSV = file_lines f OUT_CSV + 1 + row_newlines r"
proof -
  have ne: "OUT_JSONL \<noteq> OUT_CSV" by (simp add: OUT_JSONL_def OUT_CSV_def)
  have j: "count_lines (JSON_stringify r @ [LF]) = 1"
    by (simp add: count_lines_LF count_lines_none JSON_stringify_no_LF)
  show "file_lines (appendRow r f) OUT_JSONL = file_lines f OUT_JSONL + 1"
    using ne j unfolding appendRow_def Let_def by (simp only: file_lines_append) simp
  have COMMA: "count_lines [COMMA] = 0" by (simp add: count_lines_def)
  show "file_lines (appendRow r f) OUT_CSV = file_lines f OUT_CSV + 1 + row_newlines r"
    using ne unfolding appendRow_def Let_def
    by (simp add: file_lines_append count_lines_append count_lines_Cons count_lines_Nil
        count_lines_csvEscape_Str count_lines_csvEscape_nullable row_newlines_def
        count_lines_none string_of_nat_no_LF)
qed

lemma fold_appendRow_lines:
  "file_lines (fold appendRow rs f) OUT_JSONL = file_lines f OUT_JSONL + length rs
   \<and> file_lines (fold appendRow rs f) OUT_CSV = file_lines f OUT_CSV + length rs + sum_list (map row_newlines rs)"
  by (induction rs arbitrary: f) (simp_all add: appendRow_lines)

lemma ensureOut_fresh_lines:
  assumes "\<not> existsSync f (JSONL_PATH out)" "\<not> existsSync f (CSV_PATH out)"
    "JSONL_PATH out \<noteq> CSV_PATH out" "OUT_DIR out \<noteq> CSV_PATH out" "OUT_DIR out \<noteq> JSONL_PATH out"
  shows "file_lines (ensureOut out f) (JSONL_PATH out) = 0 \<and> file_lines (ensureOut out f) (CSV_PATH out) = 1"
  using assms
  by (auto simp: ensureOut_def Let_def existsSync_def mkdir_def writeFile_def file_lines_def
      count_lines_def HEADER_def)

lemma ensureOutputs_fresh_lines:
  assumes "\<not> existsSync f OUT_CSV"
  shows "file_lines (ensureOutputs f) OUT_JSONL = 0 \<and> file_lines (ensureOutputs f) OUT_CSV = 1"
  using assms
  by (auto simp: ensureOutputs_def Let_def existsSync_def mkdir_def writeFile_def unlink_def
      file_lines_def count_lines_def HEADER_def BOM_def OUT_CSV_def OUT_JSONL_def DATA_DIR_def)

subsection \<open>Matches of the regular expressions\<close>

lemma list_all_upt: "list_all P [0..<n] = (\<forall>j<n. P j)"
  by (auto simp: list_all_iff)

lemma search_first_all:
  "m t = Some r \<Longrightarrow> \<forall>j<length pre. m (drop j (pre @ t)) = None
     \<Longrightarrow> search m (pre @ t) = Some r"
proof (induction pre)
  case Nil
  then show ?case by (cases t) simp_all
next
  case (Cons a pre)
  have all: "\<forall>j<Suc (length pre). m (drop j (a # pre @ t)) = None"
    using Cons.prems(2) by simp
  then have "m (a # pre @ t) = None" by (metis drop0 zero_less_Suc)
  moreover have "\<forall>j<length pre. m (drop j (pre @ t)) = None"
  proof (intro allI impI)
    fix j assume "j < length pre"
    then have "Suc j < Suc (length pre)" by simp
    then have "m (drop (Suc j) (a # pre @ t)) = None" using all by blast
    then show "m (drop j (pre @ t)) = None" by simp
  qed
  ultimately show ?case using Cons.IH [OF Cons.prems(1)] by simp
qed

lemma search_first:
  "m t = Some r \<Longrightarrow> list_all (\<lambda>j. m (drop j (pre @ t)) = None) [0..<length pre]
     \<Longrightarrow> search m (pre @ t) = Some r"
  using search_first_all [of m t r pre] by (simp only: list_all_upt)

lemma search_None_iff: "search m s = None \<longleftrightarrow> (\<forall>j\<le>length s. m (drop j s) = None)"
proof (induction s)
  case Nil
  then show ?case by simp
next
  case (Cons a s)
  have "(\<forall>j\<le>length (a # s). m (drop j (a # s)) = None)
        \<longleftrightarrow> m (a # s) = None \<and> (\<forall>j\<le>length s. m (drop j s) = None)"
    (is "?L \<longleftrightarrow> ?A \<and> ?R")
  proof
    assume L: ?L
    have "?A" using L by (metis drop0 le0)
    moreover have "?R"
    proof (intro allI impI)
      fix j assume "j \<le> length s"
      then have "Suc j \<le> length (a # s)" by simp
      then have "m (drop (Suc j) (a # s)) = None" using L by blast
      then show "m (drop j s) = None" by simp
    qed
    ultimately show "?A \<and> ?R" by simp
  next
    assume AR: "?A \<and> ?R"
    show ?L
    proof (intro allI impI)
      fix j assume j: "j \<le> length (a # s)"
      show "m (drop j (a # s)) = None"
      proof (cases j)
        case 0
        then show ?thesis using AR by simp
      next
        case (Suc k)
        then have "k \<le> length s" using j by simp
        then show ?thesis using AR Suc by simp
      qed
    qed
  qed
  then show ?case using Cons.IH by (cases "m (a # s)") simp_all
qed

lemma takeWhile_digits:
  "list_all is_digit ds \<Longrightarrow> rest = [] \<or> \<not> is_digit (hd rest)
     \<Longrightarrow> takeWhile is_digit (ds @ rest) = ds \<and> dropWhile is_digit (ds @ rest) = rest"
  by (cases rest) (simp_all add: list_all_iff)

lemma lit_digits_app:
  "ds \<noteq> [] \<Longrightarrow> list_all is_digit ds \<Longrightarrow> rest = [] \<or> \<not> is_digit (hd rest)
     \<Longrightarrow> lit_digits lit (lit @ ds @ rest) = Some (ds, rest)"
  using takeWhile_digits [of ds rest] by (simp add: lit_digits_def Let_def)

lemma lit_digits_Some:
  "lit_digits lit s = Some (ds, rest) \<Longrightarrow>
     s = lit @ ds @ rest \<and> ds \<noteq> [] \<and> list_all is_digit ds \<and> (rest = [] \<or> \<not> is_digit (hd rest))"
proof -
  assume a: "lit_digits lit s = Some (ds, rest)"
  then have p: "prefix lit s" by (auto simp: lit_digits_def split: if_splits)
  then obtain t where s: "s = lit @ t" by (auto simp: prefix_def)
  from a s have ds: "ds = takeWhile is_digit t" and rest: "rest = dropWhile is_digit t" and ne: "ds \<noteq> []"
    by (auto simp: lit_digits_def Let_def split: if_splits)
  have "list_all is_digit ds" unfolding ds list_all_iff by (auto dest: set_takeWhileD)
  moreover have "rest = [] \<or> \<not> is_digit (hd rest)" unfolding rest
    by (metis hd_dropWhile)
  ultimately show ?thesis using s ds rest ne by simp
qed

lemma is_digit_word_char: "is_digit c \<Longrightarrow> is_word_char c"
  by (auto simp: is_digit_def is_word_char_def)

lemma slash_not_digit: "\<not> is_digit SLASH"
  by (simp add: is_digit_def)

lemma re_post_app:
  "ds \<noteq> [] \<Longrightarrow> list_all is_digit ds \<Longrightarrow> rest = [] \<or> \<not> is_digit (hd rest)
     \<Longrightarrow> re_post (''post-'' @ ds @ rest) = Some ds"
  using lit_digits_app [of ds rest "''post-''"] by (simp add: re_post_def)

lemma re_joke_app:
  assumes "ds \<noteq> []" "list_all is_digit ds" "rest = [] \<or> hd rest = SLASH"
  shows "re_joke (''/jokes/joke/'' @ ds @ rest) = Some ds"
proof -
  have "rest = [] \<or> \<not> is_digit (hd rest)" using assms(3) slash_not_digit by auto
  then have "lit_digits ''/jokes/joke/'' (''/jokes/joke/'' @ ds @ rest) = Some (ds, rest)"
    using assms by (intro lit_digits_app)
  then show ?thesis unfolding re_joke_def using assms(3) by simp
qed

lemma re_satire_app:
  assumes "ds \<noteq> []" "list_all is_digit ds" "rest = [] \<or> \<not> is_word_char (hd rest)"
  shows "re_satire (''/satire/article/'' @ ds @ rest) = Some ds"
proof -
  have "rest = [] \<or> \<not> is_digit (hd rest)" using assms(3) is_digit_word_char by auto
  then have "lit_digits ''/satire/article/'' (''/satire/article/'' @ ds @ rest) = Some (ds, rest)"
    using assms by (intro lit_digits_app)
  then show ?thesis unfolding re_satire_def using assms(3) by simp
qed

lemma re_post_digits: "re_post t = Some d \<Longrightarrow> d \<noteq> [] \<and> list_all is_digit d"
  unfolding re_post_def using lit_digits_Some by fastforce

lemma re_joke_digits: "re_joke t = Some d \<Longrightarrow> d \<noteq> [] \<and> list_all is_digit d"
  unfolding re_joke_def using lit_digits_Some
  by (fastforce split: option.splits if_splits)

lemma re_satire_digits: "re_satire t = Some d \<Longrightarrow> d \<noteq> [] \<and> list_all is_digit d"
  unfolding re_satire_def using lit_digits_Some
  by (fastforce split: option.splits if_splits)

subsection \<open>The invariant of the incremental loader\<close>

lemma redispatch_Nil: "redispatch_only_after_failure []"
  by (simp add: redispatch_only_after_failure_def)

lemma redispatch_snoc:
  "redispatch_only_after_failure (lg @ [e]) \<longleftrightarrow>
     redispatch_only_after_failure lg \<and>
     (\<forall>e'\<in>set lg. fst (snd e') = fst (snd e) \<longrightarrow> fst e' < fst e \<and> snd (snd e') = None)"
  (is "?L \<longleftrightarrow> ?A \<and> ?B")
proof
  assume L: ?L
  have A: ?A unfolding redispatch_only_after_failure_def
  proof (intro allI impI)
    fix j i assume j: "j < length lg" and i: "i < j"
      and eq: "fst (snd (lg ! i)) = fst (snd (lg ! j))"
    have "j < length (lg @ [e])" using j by simp
    moreover have "(lg @ [e]) ! i = lg ! i" "(lg @ [e]) ! j = lg ! j"
      using i j by (simp_all add: nth_append)
    ultimately show "fst (lg ! i) < fst (lg ! j) \<and> snd (snd (lg ! i)) = None"
      using L i eq unfolding redispatch_only_after_failure_def by metis
  qed
  have B: ?B
  proof (intro ballI impI)
    fix e' assume "e' \<in> set lg" and eq: "fst (snd e') = fst (snd e)"
    then obtain i where i: "i < length lg" and e': "lg ! i = e'" by (auto simp: in_set_conv_nth)
    have "length lg < length (lg @ [e])" by simp
    moreover have "(lg @ [e]) ! i = e'" "(lg @ [e]) ! length lg = e"
      using i e' by (simp_all add: nth_append)
    ultimately show "fst e' < fst e \<and> snd (snd e') = None"
      using L i eq unfolding redispatch_only_after_failure_def by metis
  qed
  show "?A \<and> ?B" using A B by simp
next
  assume AB: "?A \<and> ?B"
  show ?L unfolding redispatch_only_after_failure_def
  proof (intro allI impI)
    fix j i assume j: "j < length (lg @ [e])" and i: "i < j"
      and eq: "fst (snd ((lg @ [e]) ! i)) = fst (snd ((lg @ [e]) ! j))"
    show "fst ((lg @ [e]) ! i) < fst ((lg @ [e]) ! j) \<and> snd (snd ((lg @ [e]) ! i)) = None"
    proof (cases "j < length lg")
      case True
      then have "(lg @ [e]) ! i = lg ! i" "(lg @ [e]) ! j = lg ! j"
        using i by (simp_all add: nth_append)
      then show ?thesis using AB True i eq unfolding redispatch_only_after_failure_def by metis
    next
      case False
      then have jl: "j = length lg" using j by simp
      then have ej: "(lg @ [e]) ! j = e" by simp
      have ei: "(lg @ [e]) ! i = lg ! i" using i jl by (simp add: nth_append)
      have "lg ! i \<in> set lg" using i jl by simp
      then show ?thesis using AB eq ei ej by metis
    qed
  qed
qed

lemma saved_rows_snoc:
  "saved_rows (lg @ [(r, u, x)]) = saved_rows lg @ (case x of None \<Rightarrow> [] | Some rec \<Rightarrow> [rec])"
  by (cases x) (simp_all add: saved_rows_def List.map_filter_def)

lemma entry_ok_mono: "entry_ok E seen e \<Longrightarrow> seen \<subseteq> seen' \<Longrightarrow> entry_ok E seen' e"
  by (auto simp: entry_ok_def)

lemma pending_ok_snoc:
  "pending_ok r lg p \<Longrightarrow> fst p \<noteq> u \<Longrightarrow> pending_ok r (lg @ [(r', u, x)]) p"
  unfolding pending_ok_def by auto

lemma round_inv_step:
  assumes inv: "round_inv E f0 r s" and p: "pending_ok r (log s) (u, i)"
    and x: "x = None \<and> s' = s\<lparr>log := log s @ [(r, u, None)]\<rparr> \<or>
            (\<exists>rec n ev. x = Some rec \<and> joke_page E n u = Some ev \<and> rec = buildRecord u ev \<and>
               s' = s\<lparr>jfs := writeRecord jokes_out rec (jfs s), seenIds := insert i (seenIds s),
                      totalSaved := Suc (totalSaved s), log := log s @ [(r, u, Some rec)]\<rparr>)"
  shows "round_inv E f0 r s'"
proof -
  have ui: "i = or_empty (getArticleIdFromUrl_jokes u)" "i \<noteq> []"
    and old: "\<forall>e\<in>set (log s). fst (snd e) = u \<longrightarrow> fst e < r \<and> snd (snd e) = None"
    using p unfolding pending_ok_def by auto
  have m: "getArticleIdFromUrl_jokes u \<noteq> None"
    using ui by (cases "getArticleIdFromUrl_jokes u") (simp_all add: or_empty_def)
  have lg: "log s' = log s @ [(r, u, x)]" and seen: "seenIds s \<subseteq> seenIds s'"
    using x by auto
  have new: "entry_ok E (seenIds s') (r, u, x)"
    using x m ui by (auto simp: entry_ok_def)
  have a: "\<forall>e\<in>set (log s'). fst e \<le> r \<and> entry_ok E (seenIds s') e"
  proof
    fix e assume "e \<in> set (log s')"
    then consider "e \<in> set (log s)" | "e = (r, u, x)" using lg by auto
    then show "fst e \<le> r \<and> entry_ok E (seenIds s') e"
    proof cases
      case 1
      then have "fst e \<le> r \<and> entry_ok E (seenIds s) e" using inv unfolding round_inv_def by blast
      then show ?thesis using entry_ok_mono seen by blast
    next
      case 2
      then show ?thesis using new by simp
    qed
  qed
  have b: "redispatch_only_after_failure (log s')"
    unfolding lg redispatch_snoc using inv old by (simp add: round_inv_def)
  have c: "jfs s' = fold (writeRecord jokes_out) (saved_rows (log s')) f0"
    using x inv by (auto simp: round_inv_def saved_rows_snoc)
  show ?thesis unfolding round_inv_def using a b c by blast
qed

lemma save_new_inv:
  "round_inv E f0 r s \<Longrightarrow> distinct (map fst rest) \<Longrightarrow> \<forall>p\<in>set rest. pending_ok r (log s) p
     \<Longrightarrow> round_inv E f0 r (save_new E r rest s) \<and> rounds (save_new E r rest s) = rounds s"
proof (induction E r rest s rule: save_new.induct)
  case (1 E r s)
  then show ?case by simp
next
  case (2 E r u i rest s)
  show ?case
  proof (cases "cap_reached s")
    case True
    then show ?thesis using "2.prems"(1) by simp
  next
    case False
    have p: "pending_ok r (log s) (u, i)" using "2.prems"(3) by simp
    have dist: "distinct (map fst rest)" and notin: "\<forall>q\<in>set rest. fst q \<noteq> u"
      using "2.prems"(2) by auto
    show ?thesis
    proof (cases "scrapeOneArticle E (length (log s)) u")
      case None
      let ?s = "s\<lparr>log := log s @ [(r, u, None)]\<rparr>"
      have inv': "round_inv E f0 r ?s"
        by (rule round_inv_step [OF "2.prems"(1) p, of None]) simp
      have pend: "\<forall>q\<in>set rest. pending_ok r (log ?s) q"
        using "2.prems"(3) notin by (simp add: pending_ok_snoc)
      have "save_new E r ((u, i) # rest) s = save_new E r rest ?s"
        using False None by simp
      moreover have "round_inv E f0 r (save_new E r rest ?s) \<and> rounds (save_new E r rest ?s) = rounds ?s"
        by (rule "2.IH"(1) [OF False None inv' dist pend])
      ultimately show ?thesis by simp
    next
      case (Some rec)
      let ?s = "s\<lparr>jfs := writeRecord jokes_out rec (jfs s), seenIds := insert i (seenIds s),
                  totalSaved := Suc (totalSaved s), log := log s @ [(r, u, Some rec)]\<rparr>"
      have ev: "\<exists>n ev. joke_page E n u = Some ev \<and> rec = buildRecord u ev"
        using Some by (auto simp: scrapeOneArticle_def)
      have inv': "round_inv E f0 r ?s"
        by (rule round_inv_step [OF "2.prems"(1) p, of "Some rec"]) (use ev in simp)
      have pend: "\<forall>q\<in>set rest. pending_ok r (log ?s) q"
        using "2.prems"(3) notin by (simp add: pending_ok_snoc)
      have "save_new E r ((u, i) # rest) s = save_new E r rest ?s"
        using False Some by simp
      moreover have "round_inv E f0 r (save_new E r rest ?s) \<and> rounds (save_new E r rest ?s) = rounds ?s"
        by (rule "2.IH"(2) [OF False Some inv' dist pend])
      ultimately show ?thesis by simp
    qed
  qed
qed

lemma collect_abs_strict_distinct:
  "collect_abs_strict P origin hs out = Some urls \<Longrightarrow> distinct out \<Longrightarrow> distinct urls"
  by (induction P origin hs out rule: collect_abs_strict.induct)
     (auto split: if_splits option.splits)

lemma collectLinkObjs_shape:
  assumes "collectLinkObjs P view = Some linkObjs"
  shows "distinct (map fst linkObjs) \<and>
         (\<forall>p\<in>set linkObjs. snd p = or_empty (getArticleIdFromUrl_jokes (fst p)))"
proof -
  from assms obtain origin hrefs urls where
    c: "collect_abs_strict P origin hrefs [] = Some urls"
    and l: "linkObjs = map (\<lambda>u. (u, or_empty (getArticleIdFromUrl_jokes u))) urls"
    by (auto simp: collectLinkObjs_def split: option.splits)
  have "distinct urls" using collect_abs_strict_distinct [OF c] by simp
  moreover have "map fst linkObjs = urls" unfolding l by (simp add: comp_def)
  ultimately show ?thesis using l by auto
qed

lemma jokes_inv_round: "jokes_inv E f0 s \<Longrightarrow> round_inv E f0 (rounds s) (s\<lparr>rounds := Suc (rounds s)\<rparr>)"
  unfolding jokes_inv_def round_inv_def by (auto intro: less_imp_le)

lemma round_inv_jokes: "round_inv E f0 r s \<Longrightarrow> rounds s = Suc r \<Longrightarrow> jokes_inv E f0 s"
  unfolding jokes_inv_def round_inv_def by (auto simp: less_Suc_eq_le)

lemma processNewCardsOnList_inv:
  assumes inv: "jokes_inv E f0 s"
  shows "jokes_inv E f0 (final (processNewCardsOnList P E s))"
proof (cases "collectLinkObjs P (cards_at E (rounds s))")
  case None
  have "jokes_inv E f0 (s\<lparr>rounds := Suc (rounds s)\<rparr>)"
    using inv unfolding jokes_inv_def by (auto intro: less_SucI)
  then show ?thesis using None by (simp add: processNewCardsOnList_def Let_def)
next
  case (Some linkObjs)
  let ?r = "rounds s"
  let ?s0 = "s\<lparr>rounds := Suc ?r\<rparr>"
  let ?new = "filter (\<lambda>(u, i). i \<noteq> [] \<and> i \<notin> seenIds s) linkObjs"
  have shape: "distinct (map fst linkObjs)"
    "\<forall>p\<in>set linkObjs. snd p = or_empty (getArticleIdFromUrl_jokes (fst p))"
    using collectLinkObjs_shape [OF Some] by simp_all
  have d: "distinct (map fst ?new)" using shape(1) by (rule distinct_map_filter)
  have pend: "\<forall>p\<in>set ?new. pending_ok ?r (log ?s0) p"
  proof
    fix p assume p: "p \<in> set ?new"
    then have pl: "p \<in> set linkObjs" and ne: "snd p \<noteq> []" and ns: "snd p \<notin> seenIds s"
      by (auto split: prod.splits)
    have id: "snd p = or_empty (getArticleIdFromUrl_jokes (fst p))" using shape(2) pl by blast
    have "\<forall>e\<in>set (log s). fst (snd e) = fst p \<longrightarrow> fst e < ?r \<and> snd (snd e) = None"
    proof (intro ballI impI)
      fix e assume e: "e \<in> set (log s)" and u: "fst (snd e) = fst p"
      have ok: "fst e < ?r" "entry_ok E (seenIds s) e" using inv e unfolding jokes_inv_def by auto
      have "snd (snd e) = None"
      proof (cases "snd (snd e)")
        case None then show ?thesis .
      next
        case (Some rec)
        then have "or_empty (getArticleIdFromUrl_jokes (fst (snd e))) \<in> seenIds s"
          using ok(2) unfolding entry_ok_def by blast
        then show ?thesis using ns id u by simp
      qed
      then show "fst e < ?r \<and> snd (snd e) = None" using ok(1) by simp
    qed
    then show "pending_ok ?r (log ?s0) p" unfolding pending_ok_def using id ne by simp
  qed
  have "round_inv E f0 ?r (save_new E ?r ?new ?s0) \<and> rounds (save_new E ?r ?new ?s0) = rounds ?s0"
    by (rule save_new_inv [OF jokes_inv_round [OF inv] d pend])
  then have "jokes_inv E f0 (save_new E ?r ?new ?s0)"
    by (intro round_inv_jokes) simp_all
  then show ?thesis using Some by (simp add: processNewCardsOnList_def Let_def)
qed

lemma click_loop_inv:
  "jokes_inv E f0 s \<Longrightarrow> jokes_inv E f0 (final (click_loop P E clicks s))"
proof (induction P E clicks s rule: click_loop.induct)
  case (1 P E clicks s)
  show ?case
  proof (cases "no_more E clicks")
    case True
    then show ?thesis using "1.prems" by (simp add: click_loop.simps)
  next
    case nm: False
    show ?thesis
    proof (cases "button E clicks")
      case None
      then show ?thesis using nm "1.prems" by (simp add: click_loop.simps)
    next
      case (Some visible)
      let ?res = "if visible then processNewCardsOnList P E s else Completed s"
      have inv': "jokes_inv E f0 (final ?res)"
        using "1.prems" processNewCardsOnList_inv by simp
      show ?thesis
      proof (cases ?res)
        case (Failed s')
        then have "click_loop P E clicks s = Failed s'"
          using nm Some by (subst click_loop.simps) simp
        then show ?thesis using inv' Failed by simp
      next
        case (Completed s')
        have s': "jokes_inv E f0 s'" using inv' Completed by simp
        show ?thesis
        proof (cases "Suc clicks \<ge> MAX_CLICKS \<or> cap_reached s'")
          case True
          then have "click_loop P E clicks s = Completed s'"
            using nm Some Completed by (subst click_loop.simps) auto
          then show ?thesis using s' by simp
        next
          case False
          then have "click_loop P E clicks s = click_loop P E (Suc clicks) s'"
            using nm Some Completed by (subst click_loop.simps) auto
          moreover have "jokes_inv E f0 (final (click_loop P E (Suc clicks) s'))"
            using "1.IH" [OF nm Some Completed _ _ s'] False by simp
          ultimately show ?thesis by simp
        qed
      qed
    qed
  qed
qed

lemma main_jokes_inv: "jokes_inv E (ensureOut jokes_out f) (final (main_jokes P E f))"
proof -
  let ?s0 = "\<lparr>jfs = ensureOut jokes_out f, seenIds = {}, totalSaved = 0, rounds = 0, log = []\<rparr>"
  have i0: "jokes_inv E (ensureOut jokes_out f) ?s0"
    by (simp add: jokes_inv_def redispatch_Nil saved_rows_def List.map_filter_def)
  show ?thesis
  proof (cases "start_ok E")
    case False
    then show ?thesis using i0 by (simp add: main_jokes_def)
  next
    case True
    show ?thesis
    proof (cases "processNewCardsOnList P E ?s0")
      case (Failed s)
      then show ?thesis using True processNewCardsOnList_inv [OF i0, of P]
        by (simp add: main_jokes_def)
    next
      case (Completed s)
      then have "jokes_inv E (ensureOut jokes_out f) s"
        using processNewCardsOnList_inv [OF i0, of P] by simp
      then show ?thesis using True Completed click_loop_inv by (simp add: main_jokes_def)
    qed
  qed
qed

lemma adds_refl: "adds s s [] []"
  by (simp add: adds_def)

lemma adds_trans: "adds s s' nf np \<Longrightarrow> adds s' s'' nf' np' \<Longrightarrow> adds s s'' (nf @ nf') (np @ np')"
  by (simp add: adds_def)

subsection \<open>What the offset pagers add\<close>

lemma save_items_adds:
  "\<exists>np. adds s (ctl_state (save_items P E pnum i its s)) [] np \<and>
        (\<forall>e\<in>set np. fst e = pnum \<and>
           (\<exists>j c. j < length its \<and> article E pnum (i + j) (it_url (its ! j)) = Fetched c \<and>
                  snd e = make_row P (its ! j) c))"
proof (induction P E pnum i its s rule: save_items.induct)
  case (1 P E pnum i s)
  show ?case using adds_refl by fastforce
next
  case (2 P E pnum i it its s)
  show ?case
  proof (cases "article E pnum i (it_url it)")
    case Threw
    then show ?thesis using adds_refl by fastforce
  next
    case (Fetched c)
    let ?r = "make_row P it c"
    let ?s = "s\<lparr>fsys := appendRow ?r (fsys s), total := Suc (total s),
                persisted := persisted s @ [(pnum, ?r)]\<rparr>"
    have one: "adds s ?s [] [(pnum, ?r)]" by (simp add: adds_def)
    from "2.IH" [OF Fetched] obtain np where
      np: "adds ?s (ctl_state (save_items P E pnum (Suc i) its ?s)) [] np"
      and all: "\<forall>e\<in>set np. fst e = pnum \<and>
           (\<exists>j c. j < length its \<and> article E pnum (Suc i + j) (it_url (its ! j)) = Fetched c \<and>
                  snd e = make_row P (its ! j) c)"
      by blast
    have eq: "save_items P E pnum i (it # its) s = save_items P E pnum (Suc i) its ?s"
      using Fetched by simp
    have "adds s (ctl_state (save_items P E pnum (Suc i) its ?s)) [] ([(pnum, ?r)] @ np)"
      using adds_trans [OF one np] by simp
    moreover have "\<forall>e\<in>set ([(pnum, ?r)] @ np). fst e = pnum \<and>
        (\<exists>j c. j < length (it # its) \<and>
               article E pnum (i + j) (it_url ((it # its) ! j)) = Fetched c \<and>
               snd e = make_row P ((it # its) ! j) c)"
    proof
      fix e assume "e \<in> set ([(pnum, ?r)] @ np)"
      then consider "e = (pnum, ?r)" | "e \<in> set np" by auto
      then show "fst e = pnum \<and>
        (\<exists>j c. j < length (it # its) \<and>
               article E pnum (i + j) (it_url ((it # its) ! j)) = Fetched c \<and>
               snd e = make_row P ((it # its) ! j) c)"
      proof cases
        case 1
        have "0 < length (it # its) \<and>
               article E pnum (i + 0) (it_url ((it # its) ! 0)) = Fetched c \<and>
               snd e = make_row P ((it # its) ! 0) c"
          using 1 Fetched by simp
        then show ?thesis using 1 by (intro conjI exI [of _ 0] exI [of _ c]) simp_all
      next
        case 2
        then obtain j c' where f: "fst e = pnum" and j: "j < length its"
          and a: "article E pnum (Suc i + j) (it_url (its ! j)) = Fetched c'"
          and r: "snd e = make_row P (its ! j) c'"
          using all by blast
        have "Suc j < length (it # its) \<and>
               article E pnum (i + Suc j) (it_url ((it # its) ! Suc j)) = Fetched c' \<and>
               snd e = make_row P ((it # its) ! Suc j) c'"
          using j a r by simp
        then show ?thesis using f by (intro conjI exI [of _ "Suc j"] exI [of _ c']) simp_all
      qed
    qed
    ultimately show ?thesis unfolding eq by blast
  qed
qed

lemma list_step_adds:
  "\<exists>np. adds s (ctl_state (list_step P E pnum s)) [pnum] np \<and>
        (\<forall>e\<in>set np. fst e = pnum \<and> row_of_page P E e)"
proof (cases "list_page E pnum")
  case NavError
  have "adds s (s\<lparr>fetched := fetched s @ [pnum]\<rparr>) [pnum] []" by (simp add: adds_def)
  then show ?thesis using NavError by (fastforce simp: list_step_def Let_def)
next
  case (Listing status nodes)
  let ?s1 = "s\<lparr>fetched := fetched s @ [pnum]\<rparr>"
  have one: "adds s ?s1 [pnum] []" by (simp add: adds_def)
  show ?thesis
  proof (cases "status \<ge> 400 \<or> nodes = []")
    case True
    then have "ctl_state (list_step P E pnum s) = ?s1"
      using Listing by (auto simp: list_step_def Let_def)
    then show ?thesis using one by fastforce
  next
    case False
    then have eq: "list_step P E pnum s = save_items P E pnum 0 (scrapeListPage nodes) ?s1"
      using Listing by (auto simp: list_step_def Let_def)
    obtain np where np: "adds ?s1 (ctl_state (save_items P E pnum 0 (scrapeListPage nodes) ?s1)) [] np"
      and all: "\<forall>e\<in>set np. fst e = pnum \<and>
         (\<exists>j c. j < length (scrapeListPage nodes) \<and>
            article E pnum (0 + j) (it_url (scrapeListPage nodes ! j)) = Fetched c \<and>
            snd e = make_row P (scrapeListPage nodes ! j) c)"
      using save_items_adds by blast
    have "adds s (ctl_state (list_step P E pnum s)) ([pnum] @ []) ([] @ np)"
      unfolding eq by (rule adds_trans [OF one np])
    moreover have "\<forall>e\<in>set np. fst e = pnum \<and> row_of_page P E e"
    proof
      fix e assume "e \<in> set np"
      then obtain j c where "fst e = pnum" "j < length (scrapeListPage nodes)"
        "article E pnum j (it_url (scrapeListPage nodes ! j)) = Fetched c"
        "snd e = make_row P (scrapeListPage nodes ! j) c"
        using all by auto
      then show "fst e = pnum \<and> row_of_page P E e"
        unfolding row_of_page_def using Listing False
        by (intro conjI exI [of _ status] exI [of _ nodes] exI [of _ j] exI [of _ c]) simp_all
    qed
    ultimately show ?thesis by auto
  qed
qed

lemma list_step_stop:
  "stop_page (list_page E pnum) \<Longrightarrow> list_step P E pnum s = Break (s\<lparr>fetched := fetched s @ [pnum]\<rparr>)"
  by (auto simp: stop_page_def list_step_def Let_def split: list_result.splits)

lemma page_loop_adds:
  "\<exists>nf np. adds s (page_loop P E pnum s) nf np \<and>
     (\<forall>p\<in>set nf. pnum \<le> p \<and> p \<le> MAX_PAGES) \<and>
     (\<forall>e\<in>set np. pnum \<le> fst e \<and> fst e \<in> set nf \<and> row_of_page P E e) \<and>
     (\<forall>k\<ge>pnum. stop_page (list_page E k) \<longrightarrow> (\<forall>p\<in>set nf. p \<le> k) \<and> (\<forall>e\<in>set np. fst e < k))"
proof (induction P E pnum s rule: page_loop.induct)
  case (1 P E pnum s)
  show ?case
  proof (cases "pnum \<le> MAX_PAGES")
    case False
    then have "page_loop P E pnum s = s" by (simp add: page_loop.simps)
    then show ?thesis using adds_refl by fastforce
  next
    case le: True
    obtain np1 where a1: "adds s (ctl_state (list_step P E pnum s)) [pnum] np1"
      and r1: "\<forall>e\<in>set np1. fst e = pnum \<and> row_of_page P E e"
      using list_step_adds by blast
    have nostop: "np1 = []" if "stop_page (list_page E pnum)"
    proof -
      have "persisted (ctl_state (list_step P E pnum s)) = persisted s"
        using list_step_stop [OF that] by simp
      then show ?thesis using a1 by (simp add: adds_def)
    qed
    show ?thesis
    proof (cases "list_step P E pnum s")
      case (Break s')
      then have eq: "page_loop P E pnum s = s'" using le by (simp add: page_loop.simps)
      have "adds s s' [pnum] np1" using a1 Break by simp
      moreover have "\<forall>p\<in>set [pnum]. pnum \<le> p \<and> p \<le> MAX_PAGES" using le by simp
      moreover have "\<forall>e\<in>set np1. pnum \<le> fst e \<and> fst e \<in> set [pnum] \<and> row_of_page P E e"
        using r1 by simp
      moreover have "\<forall>k\<ge>pnum. stop_page (list_page E k) \<longrightarrow>
          (\<forall>p\<in>set [pnum]. p \<le> k) \<and> (\<forall>e\<in>set np1. fst e < k)"
      proof (intro allI impI)
        fix k assume k: "pnum \<le> k" and st: "stop_page (list_page E k)"
        have "\<forall>e\<in>set np1. fst e < k"
        proof (cases "k = pnum")
          case True
          then show ?thesis using nostop st by simp
        next
          case False
          then show ?thesis using k r1 by auto
        qed
        then show "(\<forall>p\<in>set [pnum]. p \<le> k) \<and> (\<forall>e\<in>set np1. fst e < k)" using k by simp
      qed
      ultimately show ?thesis unfolding eq by blast
    next
      case (Next s')
      then have eq: "page_loop P E pnum s = page_loop P E (Suc pnum) s'"
        using le by (simp add: page_loop.simps)
      have ns: "\<not> stop_page (list_page E pnum)"
        using list_step_stop [of E pnum P s] Next by auto
      have a1': "adds s s' [pnum] np1" using a1 Next by simp
      from "1.IH" [OF le Next] obtain nf2 np2 where
        a2: "adds s' (page_loop P E (Suc pnum) s') nf2 np2"
        and f2: "\<forall>p\<in>set nf2. Suc pnum \<le> p \<and> p \<le> MAX_PAGES"
        and r2: "\<forall>e\<in>set np2. Suc pnum \<le> fst e \<and> fst e \<in> set nf2 \<and> row_of_page P E e"
        and k2: "\<forall>k\<ge>Suc pnum. stop_page (list_page E k) \<longrightarrow>
                   (\<forall>p\<in>set nf2. p \<le> k) \<and> (\<forall>e\<in>set np2. fst e < k)"
        by blast
      have "adds s (page_loop P E pnum s) ([pnum] @ nf2) (np1 @ np2)"
        unfolding eq by (rule adds_trans [OF a1' a2])
      moreover have "\<forall>p\<in>set ([pnum] @ nf2). pnum \<le> p \<and> p \<le> MAX_PAGES"
        using le f2 by auto
      moreover have "\<forall>e\<in>set (np1 @ np2). pnum \<le> fst e \<and> fst e \<in> set ([pnum] @ nf2) \<and> row_of_page P E e"
        using r1 r2 by auto
      moreover have "\<forall>k\<ge>pnum. stop_page (list_page E k) \<longrightarrow>
          (\<forall>p\<in>set ([pnum] @ nf2). p \<le> k) \<and> (\<forall>e\<in>set (np1 @ np2). fst e < k)"
      proof (intro allI impI)
        fix k assume k: "pnum \<le> k" and st: "stop_page (list_page E k)"
        have "k \<noteq> pnum" using ns st by auto
        then have k': "Suc pnum \<le> k" using k by simp
        then have "(\<forall>p\<in>set nf2. p \<le> k) \<and> (\<forall>e\<in>set np2. fst e < k)" using k2 st by blast
        moreover have "\<forall>e\<in>set np1. fst e < k" using r1 k' by auto
        ultimately show "(\<forall>p\<in>set ([pnum] @ nf2). p \<le> k) \<and> (\<forall>e\<in>set (np1 @ np2). fst e < k)"
          using k by auto
      qed
      ultimately show ?thesis by blast
    qed
  qed
qed

lemma somes_simps [simp]:
  "somes [] = []" "somes (None # xs) = somes xs" "somes (Some x # xs) = x # somes xs"
  by (simp_all add: somes_def List.map_filter_def)

lemma save_results_eq:
  "fst (save_results p rs saved s) = saved + length (somes rs) \<and>
   fw_adds s (snd (save_results p rs saved s)) [] (map (Pair p) (somes rs)) \<and>
   total (snd (save_results p rs saved s)) = total s"
  by (induction p rs saved s rule: save_results.induct) (simp_all add: fw_adds_def)

lemma page_records_eq:
  "fw_list E p = Some (origin, hrefs) \<Longrightarrow>
     page_records P E p =
       somes (map (\<lambda>(i, u). scrapeSinglePost P (fw_post E p i u) u)
                  (enumerate 0 (collect_abs P origin hrefs [])))"
  by (simp add: page_records_def page_posts_def comp_def split_def)

lemma scrapeListPage_fw_eq:
  "fst (scrapeListPage_fw P E p s) = length (page_records P E p) \<and>
   fw_adds s (snd (scrapeListPage_fw P E p s)) [p] (map (Pair p) (page_records P E p)) \<and>
   total (snd (scrapeListPage_fw P E p s)) = total s"
proof (cases "fw_list E p")
  case None
  then show ?thesis
    by (simp add: scrapeListPage_fw_def page_records_def page_posts_def fw_adds_def)
next
  case (Some v)
  obtain origin hrefs where v: "v = (origin, hrefs)" by (cases v)
  let ?s1 = "s\<lparr>fetched := fetched s @ [p]\<rparr>"
  let ?urls = "collect_abs P origin hrefs []"
  let ?rs = "map (\<lambda>(i, u). scrapeSinglePost P (fw_post E p i u) u) (enumerate 0 ?urls)"
  have pr: "page_records P E p = somes ?rs" using Some v by (simp add: page_records_eq)
  show ?thesis
  proof (cases "?urls = []")
    case True
    then have "scrapeListPage_fw P E p s = (0, ?s1)"
      using Some v by (simp add: scrapeListPage_fw_def)
    moreover have "page_records P E p = []" using pr True by simp
    ultimately show ?thesis by (simp add: fw_adds_def)
  next
    case False
    then have eq: "scrapeListPage_fw P E p s = save_results p ?rs 0 ?s1"
      using Some v by (simp add: scrapeListPage_fw_def Let_def)
    show ?thesis unfolding eq pr using save_results_eq [of p ?rs 0 ?s1]
      by (simp add: fw_adds_def)
  qed
qed

lemma fw_pages_rec: "fw_pages p = (if p \<le> LAST_PAGE then p # fw_pages (Suc p) else [])"
  by (simp add: fw_pages_def upt_rec)

lemma fw_loop_eq:
  "fw_adds s (fw_loop P E p s) (fw_pages p) (fw_records P E p) \<and>
   total (fw_loop P E p s) = total s + length (fw_records P E p)"
proof (induction P E p s rule: fw_loop.induct)
  case (1 P E p s)
  show ?case
  proof (cases "p \<le> LAST_PAGE")
    case False
    then have "fw_loop P E p s = s" by (simp add: fw_loop.simps)
    moreover have "fw_pages p = []" using False by (subst fw_pages_rec) simp
    ultimately show ?thesis by (simp add: fw_adds_def fw_records_def)
  next
    case True
    obtain saved s' where r: "scrapeListPage_fw P E p s = (saved, s')"
      by (cases "scrapeListPage_fw P E p s")
    let ?s = "s'\<lparr>total := total s' + saved\<rparr>"
    have eq: "fw_loop P E p s = fw_loop P E (Suc p) ?s"
      using True r by (subst fw_loop.simps) simp
    have pg: "fw_pages p = p # fw_pages (Suc p)" using True by (subst fw_pages_rec) simp
    have rc: "fw_records P E p = map (Pair p) (page_records P E p) @ fw_records P E (Suc p)"
      unfolding fw_records_def pg by simp
    have st: "saved = length (page_records P E p)"
      "fw_adds s s' [p] (map (Pair p) (page_records P E p))" "total s' = total s"
      using scrapeListPage_fw_eq [of P E p s] r by simp_all
    have ih: "fw_adds ?s (fw_loop P E (Suc p) ?s) (fw_pages (Suc p)) (fw_records P E (Suc p))"
      "total (fw_loop P E (Suc p) ?s) = total ?s + length (fw_records P E (Suc p))"
      using "1.IH" [OF True r [symmetric]] by simp_all
    show ?thesis unfolding eq pg rc using st ih by (simp add: fw_adds_def)
  qed
qed

subsection \<open>The structured encoding is injective\<close>

lemma hex_value_digit: "k < 16 \<Longrightarrow> hex_value (digit_char k) = k"
proof -
  assume k: "k < 16"
  have "map_of (zip ''0123456789abcdef'' [0..<16]) (''0123456789abcdef'' ! k) = Some ([0..<16] ! k)"
    using k by (intro map_of_zip_nth) simp_all
  then show ?thesis using k by (simp add: hex_value_def digit_char_def del: upt_Suc)
qed

lemma json_unescape_plain: "c \<noteq> BSL \<Longrightarrow> json_unescape (c # rest) = c # json_unescape rest"
  by (cases rest) simp_all

lemma json_unescape_hex:
  "n < 32 \<Longrightarrow>
     json_unescape (BSL # CHR ''u'' # CHR ''0'' # CHR ''0'' # digit_char (n div 16) #
                    digit_char (n mod 16) # rest)
       = char_of n # json_unescape rest"
  by (simp add: hex_value_digit)

lemma json_unescape_escape:
  "json_unescape (json_escape_char c @ rest) = c # json_unescape rest"
proof (cases "c \<in> {DQ, BSL, CHR 0x08, CHR 0x09, LF, CHR 0x0C, CR}")
  case True
  then consider "c = DQ" | "c = BSL" | "c = CHR 0x08" | "c = CHR 0x09" | "c = LF"
    | "c = CHR 0x0C" | "c = CR" by blast
  then show ?thesis
    by cases (simp_all add: json_escape_char_def json_unescape_char_def)
next
  case False
  then have ne: "c \<noteq> DQ" "c \<noteq> BSL" "c \<noteq> CHR 0x08" "c \<noteq> CHR 0x09" "c \<noteq> LF"
    "c \<noteq> CHR 0x0C" "c \<noteq> CR" by simp_all
  show ?thesis
  proof (cases "(of_char c :: nat) < 32")
    case True
    have "json_escape_char c =
        [BSL, CHR ''u'', CHR ''0'', CHR ''0'', digit_char (of_char c div 16),
         digit_char (of_char c mod 16)]"
      using True ne by (simp add: json_escape_char_def)
    then show ?thesis using json_unescape_hex [OF True, of rest] by simp
  next
    case False
    then have "json_escape_char c = [c]" using ne by (simp add: json_escape_char_def)
    then show ?thesis using json_unescape_plain [OF ne(2)] by simp
  qed
qed

lemma json_unescape_concat:
  "json_unescape (concat (map json_escape_char s) @ rest) = s @ json_unescape rest"
  by (induction s) (simp_all add: json_unescape_escape)

lemma json_string_inj: "json_string s = json_string t \<Longrightarrow> s = t"
proof -
  assume "json_string s = json_string t"
  then have "concat (map json_escape_char s) @ [DQ] = concat (map json_escape_char t) @ [DQ]"
    by (simp add: json_string_def)
  then have "json_unescape (concat (map json_escape_char s) @ [DQ])
           = json_unescape (concat (map json_escape_char t) @ [DQ])" by simp
  then show "s = t" by (simp add: json_unescape_concat)
qed

lemma replace_newlines_id: "LF \<notin> set s \<Longrightarrow> replace_newlines s = s"
  by (induction s rule: replace_newlines.induct) auto

lemma double_quotes_concat:
  "double_quotes s = concat (map (\<lambda>c. if c = DQ then [DQ, DQ] else [c]) s)"
  by (induction s) auto

lemma list_ex_csv: "list_ex (\<lambda>c. c = COMMA \<or> c = DQ \<or> c = LF) s = (COMMA \<in> set s \<or> DQ \<in> set s \<or> LF \<in> set s)"
  by (auto simp: list_ex_iff)

subsection \<open>The files after the open step\<close>

lemma ensureOut_exists:
  "existsSync (ensureOut out f) (JSONL_PATH out) \<and> existsSync (ensureOut out f) (CSV_PATH out)"
  by (auto simp: ensureOut_def Let_def existsSync_def mkdir_def writeFile_def)

lemma ensureOut_header:
  "\<not> existsSync f (CSV_PATH out) \<Longrightarrow> CSV_PATH out \<noteq> JSONL_PATH out \<Longrightarrow> CSV_PATH out \<noteq> OUT_DIR out
     \<Longrightarrow> files (ensureOut out f) (CSV_PATH out) = Some HEADER"
  by (auto simp: ensureOut_def Let_def existsSync_def mkdir_def writeFile_def)

lemma ensureOut_keeps: "files f p = Some d \<Longrightarrow> files (ensureOut out f) p = Some d"
  by (auto simp: ensureOut_def Let_def existsSync_def mkdir_def writeFile_def)

lemma appendFileSync_extends:
  "files f p = Some d \<Longrightarrow> \<exists>e. files (appendFileSync q x f) p = Some (d @ e)"
  by (auto simp: appendFileSync_def)

lemma appendFileSync_twice_extends:
  assumes "files f p = Some d"
  shows "\<exists>e. files (appendFileSync q2 x2 (appendFileSync q1 x1 f)) p = Some (d @ e)"
proof -
  obtain e1 where "files (appendFileSync q1 x1 f) p = Some (d @ e1)"
    using appendFileSync_extends [OF assms] by blast
  then obtain e2 where "files (appendFileSync q2 x2 (appendFileSync q1 x1 f)) p = Some ((d @ e1) @ e2)"
    using appendFileSync_extends by blast
  then show ?thesis by auto
qed

lemma writeRecord_extends:
  "files f p = Some d \<Longrightarrow> \<exists>e. files (writeRecord out r f) p = Some (d @ e)"
  unfolding writeRecord_def Let_def by (rule appendFileSync_twice_extends)

lemma appendRow_extends:
  "files f p = Some d \<Longrightarrow> \<exists>e. files (appendRow r f) p = Some (d @ e)"
  unfolding appendRow_def Let_def by (rule appendFileSync_twice_extends)

lemma appendRow_creates: "files (appendRow r f) OUT_JSONL \<noteq> None"
  by (simp add: appendRow_def Let_def appendFileSync_def)

lemma ensureOutputs_facts:
  "existsSync (ensureOutputs f) OUT_CSV"
  "files (ensureOutputs f) OUT_JSONL = None"
  "\<not> existsSync f OUT_CSV \<Longrightarrow> files (ensureOutputs f) OUT_CSV = Some (BOM @ HEADER)"
  "files f p = Some d \<Longrightarrow> p \<noteq> OUT_JSONL \<Longrightarrow> files (ensureOutputs f) p = Some d"
  by (auto simp: ensureOutputs_def Let_def existsSync_def mkdir_def writeFile_def unlink_def
      OUT_CSV_def OUT_JSONL_def DATA_DIR_def)

subsection \<open>Case-insensitive matches\<close>

lemma search_Some_ex: "search m s \<noteq> None \<longleftrightarrow> (\<exists>j\<le>length s. m (drop j s) \<noteq> None)"
  unfolding search_None_iff by simp

lemma match_ci_iff:
  "match_ci pat s \<longleftrightarrow> (\<exists>w rest. s = w @ rest \<and> map ascii_upper w = map ascii_upper pat)"
proof (induction pat s rule: match_ci.induct)
  case (1 s)
  then show ?case by simp
next
  case (2 p ps)
  then show ?case by simp
next
  case (3 p ps c cs)
  show ?case
  proof
    assume "match_ci (p # ps) (c # cs)"
    then have c: "ascii_upper c = ascii_upper p" and "match_ci ps cs" by simp_all
    then obtain w rest where "cs = w @ rest" "map ascii_upper w = map ascii_upper ps"
      using 3 by blast
    then have "c # cs = (c # w) @ rest \<and> map ascii_upper (c # w) = map ascii_upper (p # ps)"
      using c by simp
    then show "\<exists>w rest. c # cs = w @ rest \<and> map ascii_upper w = map ascii_upper (p # ps)"
      by blast
  next
    assume "\<exists>w rest. c # cs = w @ rest \<and> map ascii_upper w = map ascii_upper (p # ps)"
    then obtain w rest where s: "c # cs = w @ rest"
      and m: "map ascii_upper w = map ascii_upper (p # ps)" by blast
    from m obtain x w' where w: "w = x # w'" by (cases w) auto
    then have "x = c" "cs = w' @ rest" "ascii_upper x = ascii_upper p"
      "map ascii_upper w' = map ascii_upper ps" using s m by simp_all
    then show "match_ci (p # ps) (c # cs)" using 3 by auto
  qed
qed

lemma test_ci_iff: "test_ci pat t = contains_ci pat t"
proof
  assume "test_ci pat t"
  then obtain j where "j \<le> length t" and "match_ci pat (drop j t)"
    unfolding test_ci_def search_Some_ex by (auto split: if_splits)
  then obtain w rest where "drop j t = w @ rest" and w: "map ascii_upper w = map ascii_upper pat"
    unfolding match_ci_iff by blast
  then have "t = take j t @ w @ rest" by (metis append_take_drop_id)
  then show "contains_ci pat t" unfolding contains_ci_def using w by blast
next
  assume "contains_ci pat t"
  then obtain pre w post where t: "t = pre @ w @ post" and w: "map ascii_upper w = map ascii_upper pat"
    unfolding contains_ci_def by blast
  have "drop (length pre) t = w @ post" unfolding t by simp
  then have "match_ci pat (drop (length pre) t)" unfolding match_ci_iff using w by blast
  moreover have "length pre \<le> length t" unfolding t by simp
  ultimately have "\<exists>j\<le>length t. (if match_ci pat (drop j t) then Some () else None) \<noteq> None"
    by auto
  then show "test_ci pat t" unfolding test_ci_def search_Some_ex .
qed

lemma set_somes: "set (somes xs) = {x. Some x \<in> set xs}"
proof (induction xs)
  case Nil
  then show ?case by simp
next
  case (Cons a xs)
  then show ?case by (cases a) auto
qed

subsection \<open>Where the records of a run come from\<close>

lemma saved_rows_mem: "rec \<in> set (saved_rows lg) \<longleftrightarrow> (\<exists>e\<in>set lg. snd (snd e) = Some rec)"
  by (induction lg) (auto simp: saved_rows_def List.map_filter_def)

lemma scrapeSinglePost_Some:
  assumes "scrapeSinglePost P pg u = Some r"
  shows "\<exists>d. pg = Post d \<and>
           label r = (if test_false_i (toLowerCase P (or_empty (pd_schema d))) then 0 else 1) \<and>
           published_at r = Some (trim (or_empty (pd_date d))) \<and>
           source r = u \<and> article_id r = slugFromUrl P u"
proof (cases pg)
  case (Post d)
  then have "r = \<lparr>article_id = slugFromUrl P u, publisher = Some ''fact-watch'', source = u,
      category = Some ''fact-check'', published_at = Some (trim (or_empty (pd_date d))),
      headline = trim (or_empty (pd_h1 d)),
      content = (if pd_content d = [] then None else Some (pd_content d)),
      label = (if test_false_i (toLowerCase P (or_empty (pd_schema d))) then 0 else 1)\<rparr>"
    using assms by (simp add: scrapeSinglePost_def Let_def)
  then show ?thesis using Post by simp
qed (use assms in \<open>simp_all add: scrapeSinglePost_def\<close>)

lemma page_records_mem:
  assumes "r \<in> set (page_records P E q)"
  shows "\<exists>i u pg. (i, u, pg) \<in> set (page_posts P E q) \<and> scrapeSinglePost P pg u = Some r"
proof -
  have "Some r \<in> set (map (\<lambda>(i, u, pg). scrapeSinglePost P pg u) (page_posts P E q))"
    using assms unfolding page_records_def set_somes by simp
  then obtain x where x: "x \<in> set (page_posts P E q)"
    and r: "(\<lambda>(i, u, pg). scrapeSinglePost P pg u) x = Some r" by auto
  obtain i u pg where "x = (i, u, pg)" by (cases x)
  then show ?thesis using x r by auto
qed

lemma fw_records_mem:
  "e \<in> set (fw_records P E p) \<longleftrightarrow> fst e \<in> set (fw_pages p) \<and> snd e \<in> set (page_records P E (fst e))"
  unfolding fw_records_def by (cases e) auto

lemma main_fw_eq:
  "fetched (main_fw P E f) = fw_pages FIRST_PAGE \<and>
   persisted (main_fw P E f) = fw_records P E FIRST_PAGE \<and>
   total (main_fw P E f) = length (fw_records P E FIRST_PAGE) \<and>
   fsys (main_fw P E f) =
     fold (writeRecord factwatch_out) (map snd (fw_records P E FIRST_PAGE)) (ensureOut factwatch_out f)"
  using fw_loop_eq [of "\<lparr>fsys = ensureOut factwatch_out f, total = 0, fetched = [], persisted = []\<rparr>"
      P E FIRST_PAGE]
  by (simp add: main_fw_def fw_adds_def)

lemma main_jachai_run:
  "(\<forall>p\<in>set (fetched (main_jachai P E f)). START_PAGE \<le> p \<and> p \<le> MAX_PAGES) \<and>
   (\<forall>e\<in>set (persisted (main_jachai P E f)).
       fst e \<in> set (fetched (main_jachai P E f)) \<and> row_of_page P E e) \<and>
   (\<forall>k\<ge>START_PAGE. stop_page (list_page E k) \<longrightarrow>
       (\<forall>p\<in>set (fetched (main_jachai P E f)). p \<le> k) \<and>
       (\<forall>e\<in>set (persisted (main_jachai P E f)). fst e < k)) \<and>
   total (main_jachai P E f) = length (persisted (main_jachai P E f)) \<and>
   fsys (main_jachai P E f) =
     fold appendRow (map snd (persisted (main_jachai P E f))) (ensureOutputs f)"
proof -
  let ?s0 = "\<lparr>fsys = ensureOutputs f, total = 0, fetched = [], persisted = []\<rparr>"
  obtain nf np where a: "adds ?s0 (page_loop P E START_PAGE ?s0) nf np"
    and f: "\<forall>p\<in>set nf. START_PAGE \<le> p \<and> p \<le> MAX_PAGES"
    and r: "\<forall>e\<in>set np. START_PAGE \<le> fst e \<and> fst e \<in> set nf \<and> row_of_page P E e"
    and k: "\<forall>k\<ge>START_PAGE. stop_page (list_page E k) \<longrightarrow>
              (\<forall>p\<in>set nf. p \<le> k) \<and> (\<forall>e\<in>set np. fst e < k)"
    using page_loop_adds [of ?s0 P E START_PAGE] by blast
  have "fetched (main_jachai P E f) = nf" "persisted (main_jachai P E f) = np"
    "total (main_jachai P E f) = length np"
    "fsys (main_jachai P E f) = fold appendRow (map snd np) (ensureOutputs f)"
    using a by (simp_all add: main_jachai_def adds_def)
  then show ?thesis using f r k by simp
qed

lemma jokes_saved_built:
  assumes "rec \<in> set (saved_rows (log (final (main_jokes P E f))))"
  shows "\<exists>u n ev. joke_page E n u = Some ev \<and> rec = buildRecord u ev \<and>
           getArticleIdFromUrl_jokes u \<noteq> None \<and>
           u \<in> set (dispatched (log (final (main_jokes P E f))))"
proof -
  let ?lg = "log (final (main_jokes P E f))"
  obtain e where e: "e \<in> set ?lg" and s: "snd (snd e) = Some rec"
    using assms unfolding saved_rows_mem by blast
  have "entry_ok E (seenIds (final (main_jokes P E f))) e"
    using main_jokes_inv [of E f P] e unfolding jokes_inv_def by blast
  then have "getArticleIdFromUrl_jokes (fst (snd e)) \<noteq> None"
    "\<exists>n ev. joke_page E n (fst (snd e)) = Some ev \<and> rec = buildRecord (fst (snd e)) ev"
    using s unfolding entry_ok_def by blast+
  moreover have "fst (snd e) \<in> set (dispatched ?lg)" using e by (simp add: dispatched_def)
  ultimately show ?thesis by blast
qed

lemma row_of_page_make:
  "row_of_page P E e \<Longrightarrow> \<exists>status nodes it c. list_page E (fst e) = Listing status nodes \<and>
      it \<in> set (scrapeListPage nodes) \<and> snd e = make_row P it c"
proof -
  assume "row_of_page P E e"
  then obtain status nodes j c where "list_page E (fst e) = Listing status nodes"
    "j < length (scrapeListPage nodes)" "snd e = make_row P (scrapeListPage nodes ! j) c"
    unfolding row_of_page_def by blast
  then show ?thesis
    by (intro exI [of _ status] exI [of _ nodes] exI [of _ "scrapeListPage nodes ! j"] exI [of _ c])
       simp
qed

subsection \<open>The example runs\<close>

lemma example_fw_page6:
  "page_records example_platform example_fw_env 6 = [sample_fw_row]"
  by (simp add: page_records_def page_posts_def example_fw_env_def example_platform_def
      example_resolve_def scrapeSinglePost_def Let_def sample_post_def sample_fw_row_def
      or_empty_def trim_def js_whitespace_def test_false_i_def test_ci_def ascii_upper_def
      ascii_lower_def slugFromUrl_def example_URL_def last_segment_def enumerate_eq_zip)

lemma example_fw_persisted:
  "(6, sample_fw_row) \<in> set (persisted (main_fw example_platform example_fw_env empty_fs))"
proof -
  have "(6::nat) \<in> set (fw_pages FIRST_PAGE)"
    by (simp add: fw_pages_def FIRST_PAGE_def LAST_PAGE_def)
  then show ?thesis
    using main_fw_eq [of example_platform example_fw_env empty_fs]
    by (simp add: fw_records_mem example_fw_page6)
qed

lemma example_items: "scrapeListPage [sample_node] = [sample_item]"
  by (simp add: scrapeListPage_def List.map_filter_def node_item_def sample_node_def
      sample_item_def trim_def js_whitespace_def)

lemma example_make_row: "make_row example_platform sample_item (Some ''body'') = sample_jachai_row"
  by (simp add: make_row_def sample_item_def sample_jachai_row_def getArticleIdFromUrl_def
      example_platform_def example_URL_def re_post_def lit_digits_def is_digit_def hostnamePretty_def
      categoryFromSlug_def normalizeDateISO_def example_Date_def)

lemma example_jachai_run:
  "fetched (main_jachai example_platform example_jachai_env empty_fs) = [1, 2] \<and>
   persisted (main_jachai example_platform example_jachai_env empty_fs) = [(1, sample_jachai_row)]"
  by (simp add: main_jachai_def START_PAGE_def MAX_PAGES_def page_loop.simps list_step_def
      Let_def example_jachai_env_def example_items example_make_row)

subsection \<open>What the resolvers return\<close>

lemma search_digits:
  "search m s = Some d \<Longrightarrow> (\<And>t r. m t = Some r \<Longrightarrow> r \<noteq> [] \<and> list_all is_digit r)
     \<Longrightarrow> d \<noteq> [] \<and> list_all is_digit d"
  by (induction s) (auto split: option.splits)

lemma getArticleIdFromUrl_cases:
  "getArticleIdFromUrl P u = sha1 P u \<or>
   (getArticleIdFromUrl P u \<noteq> [] \<and> list_all is_digit (getArticleIdFromUrl P u))"
proof (cases "URL_parse P u")
  case None
  then show ?thesis by (simp add: getArticleIdFromUrl_def)
next
  case (Some parsed)
  show ?thesis
  proof (cases "search re_post (pathname parsed)")
    case None
    then show ?thesis using Some by (simp add: getArticleIdFromUrl_def)
  next
    case (Some d)
    then have "d \<noteq> [] \<and> list_all is_digit d" using search_digits re_post_digits by blast
    then show ?thesis using Some \<open>URL_parse P u = Some parsed\<close>
      by (simp add: getArticleIdFromUrl_def)
  qed
qed

lemma last_segment_None: "last_segment path = None \<longleftrightarrow> list_all (\<lambda>seg. seg = []) (split_slash path)"
  by (auto simp: last_segment_def Let_def list_all_iff filter_empty_conv)

lemma last_segment_Some:
  "last_segment path = Some seg \<Longrightarrow> seg \<noteq> [] \<and> seg \<in> set (split_slash path)"
proof -
  assume a: "last_segment path = Some seg"
  let ?parts = "filter (\<lambda>p. p \<noteq> []) (split_slash path)"
  have ne: "?parts \<noteq> []" and s: "seg = last ?parts"
    using a by (auto simp: last_segment_def Let_def split: if_splits)
  have "last ?parts \<in> set ?parts" using ne by (rule last_in_set)
  then show ?thesis using s by auto
qed

lemma slugFromUrl_nonempty:
  assumes "slugFromUrl P v \<noteq> []"
  shows "\<exists>pv. URL_parse P v = Some pv \<and> slugFromUrl P v \<in> set (split_slash (pathname pv))"
proof (cases "URL_parse P v")
  case None
  then show ?thesis using assms by (simp add: slugFromUrl_def)
next
  case (Some pv)
  then have s: "slugFromUrl P v = or_empty (last_segment (pathname pv))"
    by (simp add: slugFromUrl_def)
  then obtain seg where "last_segment (pathname pv) = Some seg" "slugFromUrl P v = seg"
    using assms by (cases "last_segment (pathname pv)") (simp_all add: or_empty_def)
  then show ?thesis using Some last_segment_Some by blast
qed

subsection \<open>Sources of the records of the incremental loader\<close>

lemma saved_sources_distinct:
  "redispatch_only_after_failure lg \<Longrightarrow>
   \<forall>e\<in>set lg. \<forall>rec. snd (snd e) = Some rec \<longrightarrow> source rec = fst (snd e) \<Longrightarrow>
   distinct (map source (saved_rows lg))"
proof (induction lg rule: rev_induct)
  case Nil
  then show ?case by (simp add: saved_rows_def List.map_filter_def)
next
  case (snoc e lg)
  obtain r u x where e: "e = (r, u, x)" by (cases e)
  have rd: "redispatch_only_after_failure lg"
    and old: "\<forall>e'\<in>set lg. fst (snd e') = u \<longrightarrow> fst e' < r \<and> snd (snd e') = None"
    using snoc.prems(1) unfolding e redispatch_snoc by simp_all
  have src: "\<forall>e\<in>set lg. \<forall>rec. snd (snd e) = Some rec \<longrightarrow> source rec = fst (snd e)"
    using snoc.prems(2) by simp
  have ih: "distinct (map source (saved_rows lg))" using snoc.IH [OF rd src] .
  show ?case
  proof (cases x)
    case None
    then show ?thesis using ih e by (simp add: saved_rows_snoc)
  next
    case (Some rec)
    have su: "source rec = u" using snoc.prems(2) e Some by simp
    have "u \<notin> source ` set (saved_rows lg)"
    proof
      assume "u \<in> source ` set (saved_rows lg)"
      then obtain rec' where "rec' \<in> set (saved_rows lg)" "source rec' = u" by auto
      then obtain e' where e': "e' \<in> set lg" "snd (snd e') = Some rec'"
        unfolding saved_rows_mem by blast
      then have "fst (snd e') = u" using src \<open>source rec' = u\<close> by auto
      then have "snd (snd e') = None" using old e'(1) by blast
      then show False using e'(2) by simp
    qed
    then show ?thesis using ih e Some su by (simp add: saved_rows_snoc)
  qed
qed

lemma jokes_log_sources:
  "\<forall>e\<in>set (log (final (main_jokes P E f))). \<forall>rec. snd (snd e) = Some rec \<longrightarrow> source rec = fst (snd e)"
proof (intro ballI allI impI)
  fix e rec assume e: "e \<in> set (log (final (main_jokes P E f)))" and s: "snd (snd e) = Some rec"
  have "entry_ok E (seenIds (final (main_jokes P E f))) e"
    using main_jokes_inv [of E f P] e unfolding jokes_inv_def by blast
  then obtain ev where "rec = buildRecord (fst (snd e)) ev" using s unfolding entry_ok_def by blast
  then show "source rec = fst (snd e)" by (simp add: buildRecord_def)
qed

lemma jokes_dispatched_match:
  "u \<in> set (dispatched (log (final (main_jokes P E f)))) \<Longrightarrow> getArticleIdFromUrl_jokes u \<noteq> None"
proof -
  assume "u \<in> set (dispatched (log (final (main_jokes P E f))))"
  then obtain e where e: "e \<in> set (log (final (main_jokes P E f)))" and u: "u = fst (snd e)"
    by (auto simp: dispatched_def)
  have "entry_ok E (seenIds (final (main_jokes P E f))) e"
    using main_jokes_inv [of E f P] e unfolding jokes_inv_def by blast
  then show ?thesis using u unfolding entry_ok_def by blast
qed

lemma example_jokes_log:
  "map (\<lambda>e. (fst e, fst (snd e), snd (snd e) \<noteq> None))
       (log (final (main_jokes example_platform example_jokes_env empty_fs)))
   = [(0, ''https://www.earki.co/jokes/joke/11081/a'', False),
      (1, ''https://www.earki.co/jokes/joke/11081/a'', True)]"
  by (simp add: main_jokes_def processNewCardsOnList_def collectLinkObjs_def Let_def
      example_jokes_env_def example_platform_def example_resolve_def
      getArticleIdFromUrl_jokes_def re_joke_def lit_digits_def is_digit_def or_empty_def
      scrapeOneArticle_def cap_reached_def MAX_ARTICLES_def MAX_CLICKS_def click_loop.simps)

lemma example_links:
  "collectLinkObjs example_platform (cards_at example_jokes_env 0)
     = Some [(''https://www.earki.co/jokes/joke/11081/a'', ''11081''),
             (''https://www.earki.co/jokes/joke-of-the-day'', [])]"
  by (simp add: collectLinkObjs_def example_jokes_env_def example_platform_def example_resolve_def
      getArticleIdFromUrl_jokes_def re_joke_def lit_digits_def is_digit_def or_empty_def)

subsection \<open>The page behind each record\<close>

lemma log_pages_Nil: "log_pages E []"
  by (simp add: log_pages_def)

lemma log_pages_snoc:
  "log_pages E lg \<Longrightarrow> x = scrapeOneArticle E (length lg) u \<Longrightarrow> log_pages E (lg @ [(r, u, x)])"
  unfolding log_pages_def by (auto simp: nth_append less_Suc_eq)

lemma save_new_pages:
  "log_pages E (log s) \<Longrightarrow> log_pages E (log (save_new E r rest s))"
proof (induction E r rest s rule: save_new.induct)
  case (1 E r s)
  then show ?case by simp
next
  case (2 E r u i rest s)
  show ?case
  proof (cases "cap_reached s")
    case True
    then show ?thesis using "2.prems" by simp
  next
    case False
    show ?thesis
    proof (cases "scrapeOneArticle E (length (log s)) u")
      case None
      let ?s = "s\<lparr>log := log s @ [(r, u, None)]\<rparr>"
      have "log_pages E (log ?s)"
        using log_pages_snoc [OF "2.prems", of None u r] None by simp
      then have "log_pages E (log (save_new E r rest ?s))" by (rule "2.IH"(1) [OF False None])
      then show ?thesis using False None by simp
    next
      case (Some rec)
      let ?s = "s\<lparr>jfs := writeRecord jokes_out rec (jfs s), seenIds := insert i (seenIds s),
                  totalSaved := Suc (totalSaved s), log := log s @ [(r, u, Some rec)]\<rparr>"
      have "log_pages E (log ?s)"
        using log_pages_snoc [OF "2.prems", of "Some rec" u r] Some by simp
      then have "log_pages E (log (save_new E r rest ?s))" by (rule "2.IH"(2) [OF False Some])
      then show ?thesis using False Some by simp
    qed
  qed
qed

lemma processNewCardsOnList_pages:
  "log_pages E (log s) \<Longrightarrow> log_pages E (log (final (processNewCardsOnList P E s)))"
  by (cases "collectLinkObjs P (cards_at E (rounds s))")
     (simp_all add: processNewCardsOnList_def Let_def save_new_pages)

lemma click_loop_pages:
  "log_pages E (log s) \<Longrightarrow> log_pages E (log (final (click_loop P E clicks s)))"
proof (induction P E clicks s rule: click_loop.induct)
  case (1 P E clicks s)
  show ?case
  proof (cases "no_more E clicks")
    case True
    then show ?thesis using "1.prems" by (simp add: click_loop.simps)
  next
    case nm: False
    show ?thesis
    proof (cases "button E clicks")
      case None
      then show ?thesis using nm "1.prems" by (simp add: click_loop.simps)
    next
      case (Some visible)
      let ?res = "if visible then processNewCardsOnList P E s else Completed s"
      have inv': "log_pages E (log (final ?res))"
        using "1.prems" processNewCardsOnList_pages by simp
      show ?thesis
      proof (cases ?res)
        case (Failed s')
        then have "click_loop P E clicks s = Failed s'"
          using nm Some by (subst click_loop.simps) simp
        then show ?thesis using inv' Failed by simp
      next
        case (Completed s')
        have s': "log_pages E (log s')" using inv' Completed by simp
        show ?thesis
        proof (cases "Suc clicks \<ge> MAX_CLICKS \<or> cap_reached s'")
          case True
          then have "click_loop P E clicks s = Completed s'"
            using nm Some Completed by (subst click_loop.simps) auto
          then show ?thesis using s' by simp
        next
          case False
          then have "click_loop P E clicks s = click_loop P E (Suc clicks) s'"
            using nm Some Completed by (subst click_loop.simps) auto
          moreover have "log_pages E (log (final (click_loop P E (Suc clicks) s')))"
            using "1.IH" [OF nm Some Completed _ _ s'] False by simp
          ultimately show ?thesis by simp
        qed
      qed
    qed
  qed
qed

lemma main_jokes_pages: "log_pages E (log (final (main_jokes P E f)))"
proof -
  let ?s0 = "\<lparr>jfs = ensureOut jokes_out f, seenIds = {}, totalSaved = 0, rounds = 0, log = []\<rparr>"
  have i0: "log_pages E (log ?s0)" by (simp add: log_pages_Nil)
  show ?thesis
  proof (cases "start_ok E")
    case False
    then show ?thesis using i0 by (simp add: main_jokes_def)
  next
    case True
    show ?thesis
    proof (cases "processNewCardsOnList P E ?s0")
      case (Failed s)
      then show ?thesis using True processNewCardsOnList_pages [OF i0, of P]
        by (simp add: main_jokes_def)
    next
      case (Completed s)
      then have "log_pages E (log s)"
        using processNewCardsOnList_pages [OF i0, of P] by simp
      then show ?thesis using True Completed click_loop_pages by (simp add: main_jokes_def)
    qed
  qed
qed

lemma jokes_saved_from:
  assumes "rec \<in> set (saved_rows (log (final (main_jokes P E f))))"
  shows "\<exists>i ev. i < length (log (final (main_jokes P E f))) \<and>
           fst (snd (log (final (main_jokes P E f)) ! i)) = source rec \<and>
           snd (snd (log (final (main_jokes P E f)) ! i)) = Some rec \<and>
           joke_page E i (source rec) = Some ev \<and> rec = buildRecord (source rec) ev"
proof -
  let ?lg = "log (final (main_jokes P E f))"
  obtain e where e: "e \<in> set ?lg" and s: "snd (snd e) = Some rec"
    using assms unfolding saved_rows_mem by blast
  obtain i where i: "i < length ?lg" and ei: "?lg ! i = e" using e by (auto simp: in_set_conv_nth)
  have "snd (snd (?lg ! i)) = scrapeOneArticle E i (fst (snd (?lg ! i)))"
    using main_jokes_pages [of E P f] i unfolding log_pages_def by blast
  then have "scrapeOneArticle E i (fst (snd e)) = Some rec" using ei s by simp
  then obtain ev where ev: "joke_page E i (fst (snd e)) = Some ev" "rec = buildRecord (fst (snd e)) ev"
    by (auto simp: scrapeOneArticle_def)
  then have "source rec = fst (snd e)" by (simp add: buildRecord_def)
  then show ?thesis using i ei s ev by (intro exI [of _ i] exI [of _ ev]) simp
qed

lemma page_posts_mem:
  "(i, u, pg) \<in> set (page_posts P E p) \<Longrightarrow> pg = fw_post E p i u"
  by (auto simp: page_posts_def split: option.splits)

lemma example_jokes_full_log:
  "log (final (main_jokes example_platform example_jokes_env empty_fs))
   = [(0, ''https://www.earki.co/jokes/joke/11081/a'', None),
      (1, ''https://www.earki.co/jokes/joke/11081/a'',
       Some (buildRecord ''https://www.earki.co/jokes/joke/11081/a'' sample_eval))]"
  by (simp add: main_jokes_def processNewCardsOnList_def collectLinkObjs_def Let_def
      example_jokes_env_def example_platform_def example_resolve_def
      getArticleIdFromUrl_jokes_def re_joke_def lit_digits_def is_digit_def or_empty_def
      scrapeOneArticle_def cap_reached_def MAX_ARTICLES_def MAX_CLICKS_def click_loop.simps)

lemma example_fw_posts6:
  "page_posts example_platform example_fw_env 6
     = [(0, ''https://www.fact-watch.org/claim-a/'', Post sample_post)]"
  by (simp add: page_posts_def example_fw_env_def example_platform_def example_resolve_def
      enumerate_eq_zip)

subsection \<open>The last segment of a path and the first match of a pattern\<close>

lemma split_slash_nonempty: "split_slash s \<noteq> []"
  by (induction s) (auto split: list.splits)

lemma split_slash_append: "split_slash (a @ SLASH # b) = split_slash a @ split_slash b"
proof (induction a)
  case Nil
  then show ?case by simp
next
  case (Cons c a)
  obtain p ps where "split_slash a = p # ps" using split_slash_nonempty [of a] by (cases "split_slash a") auto
  then show ?case using Cons by simp
qed

lemma split_slash_noslash: "SLASH \<notin> set s \<Longrightarrow> split_slash s = [s]"
  by (induction s) auto

lemma split_slash_slashes:
  "list_all (\<lambda>c. c = SLASH) post \<Longrightarrow> filter (\<lambda>p. p \<noteq> []) (split_slash post) = []"
  by (induction post) auto

lemma last_segment_decomp:
  assumes "seg \<noteq> []" "SLASH \<notin> set seg" "pre = [] \<or> last pre = SLASH"
    "list_all (\<lambda>c. c = SLASH) post"
  shows "last_segment (pre @ seg @ post) = Some seg"
proof -
  have A: "filter (\<lambda>p. p \<noteq> []) (split_slash (seg @ post)) = [seg]"
  proof (cases post)
    case Nil
    then show ?thesis using assms(1,2) by (simp add: split_slash_noslash)
  next
    case (Cons c post')
    then have c: "c = SLASH" and p': "list_all (\<lambda>c. c = SLASH) post'" using assms(4) by simp_all
    have "split_slash (seg @ post) = split_slash seg @ split_slash post'"
      unfolding Cons c by (rule split_slash_append)
    then show ?thesis using assms(1,2) p' by (simp add: split_slash_noslash split_slash_slashes)
  qed
  have "\<exists>xs. filter (\<lambda>p. p \<noteq> []) (split_slash (pre @ seg @ post)) = xs @ [seg]"
  proof (cases "pre = []")
    case True
    then show ?thesis using A by simp
  next
    case False
    then have "last pre = SLASH" using assms(3) by simp
    then obtain pre' where pre: "pre = pre' @ [SLASH]" using False by (metis append_butlast_last_id)
    have "split_slash (pre @ seg @ post) = split_slash pre' @ split_slash (seg @ post)"
      unfolding pre using split_slash_append [of pre' "seg @ post"] by simp
    then show ?thesis using A by simp
  qed
  then show ?thesis by (auto simp: last_segment_def Let_def)
qed

lemma jachai_first_match:
  assumes "URL_parse P u = Some parsed" "pathname parsed = pre @ ''post-'' @ ds @ rest"
    "ds \<noteq> []" "list_all is_digit ds" "rest = [] \<or> \<not> is_digit (hd rest)"
    "list_all (\<lambda>j. re_post (drop j (pathname parsed)) = None) [0..<length pre]"
  shows "getArticleIdFromUrl P u = ds"
proof -
  have "re_post (''post-'' @ ds @ rest) = Some ds"
    using assms(3,4,5) by (rule re_post_app)
  then have "search re_post (pre @ ''post-'' @ ds @ rest) = Some ds"
    using assms(2,6) by (intro search_first) auto
  then show ?thesis using assms(1,2) by (simp add: getArticleIdFromUrl_def)
qed

lemma jokes_first_match:
  assumes "u = pre @ ''/jokes/joke/'' @ ds @ rest"
    "ds \<noteq> []" "list_all is_digit ds" "rest = [] \<or> hd rest = SLASH"
    "list_all (\<lambda>j. re_joke (drop j u) = None) [0..<length pre]"
  shows "getArticleIdFromUrl_jokes u = Some ds"
proof -
  have "re_joke (''/jokes/joke/'' @ ds @ rest) = Some ds"
    using assms(2,3,4) by (rule re_joke_app)
  then have "search re_joke (pre @ ''/jokes/joke/'' @ ds @ rest) = Some ds"
    using assms(1,5) by (intro search_first) auto
  then show ?thesis using assms(1) by (simp add: getArticleIdFromUrl_jokes_def)
qed

lemma satire_first_match:
  assumes "u = pre @ ''/satire/article/'' @ ds @ rest"
    "ds \<noteq> []" "list_all is_digit ds" "rest = [] \<or> \<not> is_word_char (hd rest)"
    "list_all (\<lambda>j. re_satire (drop j u) = None) [0..<length pre]"
  shows "getArticleIdFromUrl_satire u = Some ds"
proof -
  have "re_satire (''/satire/article/'' @ ds @ rest) = Some ds"
    using assms(2,3,4) by (rule re_satire_app)
  then have "search re_satire (pre @ ''/satire/article/'' @ ds @ rest) = Some ds"
    using assms(1,5) by (intro search_first) auto
  then show ?thesis using assms(1) by (simp add: getArticleIdFromUrl_satire_def)
qed

lemma search_None_list_all:
  "(search m s = None) = list_all (\<lambda>j. m (drop j s) = None) [0..<Suc (length s)]"
  unfolding search_None_iff list_all_upt by (simp add: less_Suc_eq_le)

lemma slugFromUrl_eq:
  "URL_parse P v = Some pv \<Longrightarrow>
     slugFromUrl P v =
       (if filter (\<lambda>p. p \<noteq> []) (split_slash (pathname pv)) = [] then []
        else last (filter (\<lambda>p. p \<noteq> []) (split_slash (pathname pv))))"
  by (simp add: slugFromUrl_def last_segment_def Let_def or_empty_def)

lemma slugFromUrl_decomp:
  assumes "URL_parse P v = Some pv" "pathname pv = pre @ seg @ post" "seg \<noteq> []"
    "SLASH \<notin> set seg" "pre = [] \<or> last pre = SLASH" "list_all (\<lambda>c. c = SLASH) post"
  shows "slugFromUrl P v = seg"
  using last_segment_decomp [OF assms(3,4,5,6)] assms(1,2)
  by (simp add: slugFromUrl_def or_empty_def)

section \<open>The claims\<close>

text \<open>In the runs below, \<open>browser.newPage\<close>, \<open>page.close\<close> and the calls of
  \<open>page.evaluate\<close> outside a \<open>try\<close> are taken to return, as are the calls of \<open>fs\<close>.\<close>

subsection \<open>C1: an offset pager stops at a failing or empty list page\<close>

text \<open>
  C1, as stated: in every offset pager a list page with an error status or with no card ends
  the traversal, so that no later page is fetched and no record of a later page is written
  (no card on page 5 of 70: page 6 is never fetched). This fails for the fact-watch pager,
  whose loop over the pages has no exit: with no card on page 5 it fetches page 6 and writes
  the record of page 6.
\<close>

theorem offset_pager_stop_counterexample:
  "fw_list example_fw_env 5 = Some (''https://www.fact-watch.org'', []) \<and>
   page_records example_platform example_fw_env 5 = [] \<and>
   LAST_PAGE = 70 \<and>
   6 \<in> set (fetched (main_fw example_platform example_fw_env empty_fs)) \<and>
   (6, sample_fw_row) \<in> set (persisted (main_fw example_platform example_fw_env empty_fs))"
proof -
  have "(6::nat) \<in> set (fw_pages FIRST_PAGE)"
    by (simp add: fw_pages_def FIRST_PAGE_def LAST_PAGE_def)
  then have "6 \<in> set (fetched (main_fw example_platform example_fw_env empty_fs))"
    using main_fw_eq [of example_platform example_fw_env empty_fs] by simp
  moreover have "page_records example_platform example_fw_env 5 = []"
    by (simp add: page_records_def page_posts_def example_fw_env_def)
  ultimately show ?thesis
    using example_fw_persisted by (simp add: example_fw_env_def LAST_PAGE_def)
qed

text \<open>
  C1, amended: in the jachai.org pager (\<open>earki.js\<close>) a list page whose navigation throws,
  whose status is 400 or more, or that has no \<open>article.list-view\<close> element ends the run:
  every page fetched has a number up to that page's, every record written comes from an
  earlier page, and the files hold exactly the records written. The fact-watch pager has no
  stop: it fetches every page from \<open>FIRST_PAGE\<close> to \<open>LAST_PAGE\<close> and writes the records of
  each; a page that fails to load or shows no card contributes no record.
\<close>

theorem offset_pager_stop:
  "(START_PAGE \<le> k \<and> stop_page (list_page E k) \<longrightarrow>
      (\<forall>p\<in>set (fetched (main_jachai P E f)). p \<le> k) \<and>
      (\<forall>e\<in>set (persisted (main_jachai P E f)). fst e < k)) \<and>
   fsys (main_jachai P E f)
     = fold appendRow (map snd (persisted (main_jachai P E f))) (ensureOutputs f) \<and>
   fetched (main_fw P Ef f) = [FIRST_PAGE..<Suc LAST_PAGE] \<and>
   persisted (main_fw P Ef f) = fw_records P Ef FIRST_PAGE \<and>
   fsys (main_fw P Ef f)
     = fold (writeRecord factwatch_out) (map snd (persisted (main_fw P Ef f)))
         (ensureOut factwatch_out f) \<and>
   (fw_list Ef q = None \<or>
    (\<exists>origin hrefs. fw_list Ef q = Some (origin, hrefs) \<and> collect_abs P origin hrefs [] = [])
      \<longrightarrow> page_records P Ef q = [])"
proof -
  have "page_records P Ef q = []"
    if "fw_list Ef q = None \<or>
        (\<exists>origin hrefs. fw_list Ef q = Some (origin, hrefs) \<and> collect_abs P origin hrefs [] = [])"
    using that by (auto simp: page_records_def page_posts_def)
  then show ?thesis
    using main_jachai_run [of P E f] main_fw_eq [of P Ef f] by (simp add: fw_pages_def)
qed

theorem offset_pager_stop_witness:
  "START_PAGE \<le> 2 \<and> stop_page (list_page example_jachai_env 2) \<and>
   fetched (main_jachai example_platform example_jachai_env empty_fs) = [1, 2] \<and>
   list_all (\<lambda>p. p \<le> 2) (fetched (main_jachai example_platform example_jachai_env empty_fs)) \<and>
   list_all (\<lambda>e. fst e < 2) (persisted (main_jachai example_platform example_jachai_env empty_fs)) \<and>
   fw_list example_fw_env 5 = Some (''https://www.fact-watch.org'', []) \<and>
   page_records example_platform example_fw_env 5 = []"
  using offset_pager_stop [of 2 example_jachai_env example_platform empty_fs example_fw_env 5]
    example_jachai_run
  by (simp add: START_PAGE_def stop_page_def example_jachai_env_def example_fw_env_def
      list_all_iff)

subsection \<open>C2: no URL is dispatched twice in incremental mode\<close>

text \<open>
  C2, as stated: in a run of the incremental loader no URL is given to a fetch worker twice.
  This fails: \<open>seenIds\<close> holds the identifiers of the records saved, so a URL whose
  navigation failed in one round is dispatched again in the next round that lists it.
\<close>

theorem dedup_after_persist_counterexample:
  "dispatched (log (final (main_jokes example_platform example_jokes_env empty_fs)))
     = [''https://www.earki.co/jokes/joke/11081/a'', ''https://www.earki.co/jokes/joke/11081/a''] \<and>
   map fst (log (final (main_jokes example_platform example_jokes_env empty_fs))) = [0, 1]"
proof -
  let ?lg = "log (final (main_jokes example_platform example_jokes_env empty_fs))"
  have "map (\<lambda>t. fst (snd t)) (map (\<lambda>e. (fst e, fst (snd e), snd (snd e) \<noteq> None)) ?lg)
          = dispatched ?lg"
    "map fst (map (\<lambda>e. (fst e, fst (snd e), snd (snd e) \<noteq> None)) ?lg) = map fst ?lg"
    by (simp_all add: dispatched_def comp_def)
  then show ?thesis unfolding example_jokes_log by simp
qed

text \<open>
  C2, amended: in a run of the incremental loader a URL is dispatched again only in a later
  round and only when each earlier dispatch of it gave no record; within one round no URL is
  dispatched twice, and a URL whose record was written is never dispatched again, so that no
  two records written in a run have the same source.
\<close>

theorem dedup_after_persist:
  "redispatch_only_after_failure (log (final (main_jokes P E f))) \<and>
   distinct (map source (saved_rows (log (final (main_jokes P E f)))))"
proof -
  have "redispatch_only_after_failure (log (final (main_jokes P E f)))"
    using main_jokes_inv [of E f P] unfolding jokes_inv_def by blast
  then show ?thesis using saved_sources_distinct jokes_log_sources by blast
qed

theorem dedup_after_persist_witness:
  "map (\<lambda>e. (fst e, fst (snd e), snd (snd e) \<noteq> None))
       (log (final (main_jokes example_platform example_jokes_env empty_fs)))
   = [(0, ''https://www.earki.co/jokes/joke/11081/a'', False),
      (1, ''https://www.earki.co/jokes/joke/11081/a'', True)] \<and>
   redispatch_only_after_failure (log (final (main_jokes example_platform example_jokes_env empty_fs))) \<and>
   distinct (map source (saved_rows (log (final (main_jokes example_platform example_jokes_env empty_fs)))))"
  using dedup_after_persist [of example_platform example_jokes_env empty_fs] example_jokes_log
  by simp

subsection \<open>C3: the tabular and the structured encoding\<close>

text \<open>
  C3, as stated: every tabular encoder maps \<open>null\<close> to the empty field, wraps a value with a
  quote, a comma or a newline in quotes, and collapses the newlines of headline and content
  first. This fails on both encoders: \<open>toCsvField\<close> turns the value \<open>a\<newline>b\<close> into
  \<open>a b\<close> and does not wrap it, and \<open>appendRow\<close> of \<open>earki.js\<close> writes a content with a newline
  as a quoted field that still holds the newline.
\<close>

theorem tabular_encoding_counterexample:
  "toCsvField (Str ''a\<newline>b'') = ''a b'' \<and>
   files (appendRow sample_row empty_fs) OUT_CSV = Some (''1,,u,,,h,'' @ [DQ] @ ''a\<newline>b'' @ [DQ] @ '',0\<newline>'')"
  by (simp add: toCsvField_def trim_def js_whitespace_def str_includes_char
      appendRow_def sample_row_def empty_fs_def appendFileSync_def OUT_CSV_def OUT_JSONL_def
      csvEscape_def nullable_def string_of_nat.simps digit_char_def)

text \<open>
  C3, amended: both encoders map \<open>null\<close>/\<open>undefined\<close> to the empty field. \<open>csvEscape\<close>
  (jachai.org) wraps a value that holds a comma, a quote or a newline in quotes, with the
  quotes inside doubled, and keeps every other value as it is; it keeps the newlines.
  \<open>toCsvField\<close> (jokes, satire, fact-watch) replaces every newline, with the carriage return
  before it, by a space in every field, trims the result, and wraps it, quotes doubled, when it
  holds a quote or a comma; no tabular field holds a newline. The structured encoding escapes
  a newline as backslash-n and loses nothing: different strings have different encodings.
\<close>

theorem tabular_encoding:
  "csvEscape Null = [] \<and> toCsvField Null = [] \<and>
   csvEscape (Str s) =
     (if COMMA \<in> set s \<or> DQ \<in> set s \<or> LF \<in> set s then DQ # double_quotes s @ [DQ] else s) \<and>
   toCsvField (Str s) =
     (if DQ \<in> set (trim (replace_newlines s)) \<or> COMMA \<in> set (trim (replace_newlines s))
      then DQ # double_quotes (trim (replace_newlines s)) @ [DQ]
      else trim (replace_newlines s)) \<and>
   double_quotes s = concat (map (\<lambda>c. if c = DQ then [DQ, DQ] else [c]) s) \<and>
   LF \<notin> set (replace_newlines s) \<and>
   (LF \<notin> set s \<longrightarrow> replace_newlines s = s) \<and>
   LF \<notin> set (toCsvField v) \<and>
   json_escape_char LF = [BSL, CHR ''n''] \<and>
   (json_string s = json_string t \<longrightarrow> s = t)"
proof -
  have "csvEscape Null = []" "toCsvField Null = []"
    by (simp_all add: csvEscape_def toCsvField_def)
  moreover have "csvEscape (Str s) =
     (if COMMA \<in> set s \<or> DQ \<in> set s \<or> LF \<in> set s then DQ # double_quotes s @ [DQ] else s)"
    by (simp add: csvEscape_def list_ex_csv)
  moreover have "toCsvField (Str s) =
     (if DQ \<in> set (trim (replace_newlines s)) \<or> COMMA \<in> set (trim (replace_newlines s))
      then DQ # double_quotes (trim (replace_newlines s)) @ [DQ]
      else trim (replace_newlines s))"
    by (simp add: toCsvField_def Let_def str_includes_char)
  moreover have "json_escape_char LF = [BSL, CHR ''n'']"
    by (simp add: json_escape_char_def)
  ultimately show ?thesis
    using json_string_inj [of s t] double_quotes_concat [of s] replace_newlines_no_LF [of s]
      replace_newlines_id [of s] toCsvField_no_LF [of v]
    by blast
qed

theorem tabular_encoding_witness:
  "LF \<notin> set ''a,b'' \<and> replace_newlines ''a,b'' = ''a,b'' \<and>
   csvEscape (Str ''a,b'') = [DQ] @ ''a,b'' @ [DQ] \<and>
   toCsvField (Str ''a,b'') = [DQ] @ ''a,b'' @ [DQ]"
  using tabular_encoding [of "''a,b''" "Str ''a,b''" "''a,b''"]
  by (simp add: trim_def js_whitespace_def)

subsection \<open>C4: the output files after the open step\<close>

text \<open>
  C4, as stated: after the open step both output files exist and the tabular file starts with
  the header row. This fails: \<open>ensureOutputs\<close> of \<open>earki.js\<close> deletes the structured file
  and does not create it, and \<open>ensureOut\<close> leaves an existing tabular file as it is, whatever
  its first line.
\<close>

theorem outputs_after_open_counterexample:
  "\<not> existsSync (ensureOutputs empty_fs) OUT_JSONL \<and>
   files (ensureOut jokes_out (writeFile (CSV_PATH jokes_out) ''x'' empty_fs)) (CSV_PATH jokes_out)
     = Some ''x''"
  by (simp add: ensureOutputs_def ensureOut_def Let_def existsSync_def mkdir_def writeFile_def
      unlink_def empty_fs_def jokes_out_def OUT_CSV_def OUT_JSONL_def DATA_DIR_def)

text \<open>
  C4, amended: after \<open>ensureOut\<close> (jokes, satire, fact-watch) both files exist; the tabular
  file is exactly the header row when it did not exist before, and an existing file is kept as
  it is. After \<open>ensureOutputs\<close> (jachai.org) the tabular file exists, with the byte-order mark
  and the header row when it did not exist before, and the structured file does not exist: the
  first append creates it. No step truncates a file that is kept: the open steps keep the
  contents of every existing file (but for the structured file that \<open>ensureOutputs\<close> deletes),
  and after an append the old contents of every file are a prefix of the new ones.
\<close>

theorem outputs_after_open:
  "existsSync (ensureOut out f) (JSONL_PATH out) \<and>
   existsSync (ensureOut out f) (CSV_PATH out) \<and>
   (\<not> existsSync f (CSV_PATH out) \<and> CSV_PATH out \<noteq> JSONL_PATH out \<and> CSV_PATH out \<noteq> OUT_DIR out
      \<longrightarrow> files (ensureOut out f) (CSV_PATH out) = Some HEADER) \<and>
   existsSync (ensureOutputs f) OUT_CSV \<and>
   files (ensureOutputs f) OUT_JSONL = None \<and>
   (\<not> existsSync f OUT_CSV \<longrightarrow> files (ensureOutputs f) OUT_CSV = Some (BOM @ HEADER)) \<and>
   files (appendRow r f) OUT_JSONL \<noteq> None \<and>
   (files g p = Some d \<longrightarrow>
      files (ensureOut out g) p = Some d \<and>
      (p \<noteq> OUT_JSONL \<longrightarrow> files (ensureOutputs g) p = Some d) \<and>
      (\<exists>e. files (writeRecord out r g) p = Some (d @ e)) \<and>
      (\<exists>e. files (appendRow r g) p = Some (d @ e)))"
  using ensureOut_exists [of out f] ensureOut_header [of f out] ensureOutputs_facts [of f]
    ensureOutputs_facts(4) [of g p d] appendRow_creates [of r f] ensureOut_keeps [of g p d out]
    writeRecord_extends [of g p d out r] appendRow_extends [of g p d r]
  by blast

theorem outputs_after_open_witness:
  "\<not> existsSync empty_fs (CSV_PATH jokes_out) \<and> \<not> existsSync empty_fs OUT_CSV \<and>
   files (ensureOut jokes_out empty_fs) (CSV_PATH jokes_out) = Some HEADER \<and>
   files (ensureOutputs empty_fs) OUT_CSV = Some (BOM @ HEADER) \<and>
   files (writeFile OUT_CSV ''x'' empty_fs) OUT_CSV = Some ''x'' \<and>
   files (ensureOutputs (writeFile OUT_CSV ''x'' empty_fs)) OUT_CSV = Some ''x'' \<and>
   (\<exists>e. files (appendRow sample_row (writeFile OUT_CSV ''x'' empty_fs)) OUT_CSV = Some (''x'' @ e))"
  using outputs_after_open [of jokes_out empty_fs sample_row "writeFile OUT_CSV ''x'' empty_fs"
      OUT_CSV "''x''"]
  by (simp add: existsSync_def empty_fs_def jokes_out_def OUT_CSV_def OUT_JSONL_def writeFile_def)

subsection \<open>C5: the number of lines after N appends\<close>

text \<open>
  C5, as stated: \<open>N\<close> appends give \<open>N\<close> lines in the structured file and \<open>N + 1\<close> lines in
  the tabular file, whatever the records hold. This fails for \<open>appendRow\<close> of \<open>earki.js\<close>:
  one record whose content has a newline gives three lines in a fresh tabular file.
\<close>

theorem sink_line_counts_counterexample:
  "file_lines (fold appendRow [sample_row] (ensureOutputs empty_fs)) OUT_CSV = 3"
  by (simp add: sample_row_def empty_fs_def ensureOutputs_def appendRow_def Let_def
      existsSync_def mkdir_def writeFile_def unlink_def appendFileSync_def file_lines_def
      count_lines_def HEADER_def BOM_def OUT_CSV_def OUT_JSONL_def DATA_DIR_def
      csvEscape_def nullable_def string_of_nat.simps digit_char_def)

text \<open>
  C5, amended: starting without output files, the open step and \<open>N\<close> calls of
  \<open>writeRecord\<close> (jokes, satire, fact-watch) give exactly \<open>N\<close> lines in the structured file
  and \<open>N + 1\<close> lines in the tabular file, whatever the records hold. Starting without the
  tabular file, \<open>ensureOutputs\<close> and \<open>N\<close> calls of \<open>appendRow\<close> (jachai.org) give exactly
  \<open>N\<close> lines in the structured file, and in the tabular file \<open>N + 1\<close> lines plus one line for
  every newline inside a string field of a record.
\<close>

theorem sink_line_counts:
  "(\<not> existsSync f (JSONL_PATH out) \<and> \<not> existsSync f (CSV_PATH out) \<and>
    JSONL_PATH out \<noteq> CSV_PATH out \<and> OUT_DIR out \<noteq> CSV_PATH out \<and> OUT_DIR out \<noteq> JSONL_PATH out \<longrightarrow>
      file_lines (fold (writeRecord out) rs (ensureOut out f)) (JSONL_PATH out) = length rs \<and>
      file_lines (fold (writeRecord out) rs (ensureOut out f)) (CSV_PATH out) = length rs + 1) \<and>
   (\<not> existsSync g OUT_CSV \<longrightarrow>
      file_lines (fold appendRow rs (ensureOutputs g)) OUT_JSONL = length rs \<and>
      file_lines (fold appendRow rs (ensureOutputs g)) OUT_CSV
        = length rs + 1 + sum_list (map row_newlines rs))"
  using fold_writeRecord_lines [of out rs "ensureOut out f"] ensureOut_fresh_lines [of f out]
    fold_appendRow_lines [of rs "ensureOutputs g"] ensureOutputs_fresh_lines [of g]
  by auto

theorem sink_line_counts_witness:
  "\<not> existsSync empty_fs (JSONL_PATH jokes_out) \<and> \<not> existsSync empty_fs (CSV_PATH jokes_out) \<and>
   \<not> existsSync empty_fs OUT_CSV \<and>
   file_lines (fold (writeRecord jokes_out) [sample_row, sample_row] (ensureOut jokes_out empty_fs))
     (JSONL_PATH jokes_out) = 2 \<and>
   file_lines (fold (writeRecord jokes_out) [sample_row, sample_row] (ensureOut jokes_out empty_fs))
     (CSV_PATH jokes_out) = 3 \<and>
   file_lines (fold appendRow [sample_row, sample_row] (ensureOutputs empty_fs)) OUT_JSONL = 2 \<and>
   file_lines (fold appendRow [sample_row, sample_row] (ensureOutputs empty_fs)) OUT_CSV = 5"
  using sink_line_counts [of empty_fs jokes_out "[sample_row, sample_row]" empty_fs]
  by (simp add: existsSync_def empty_fs_def jokes_out_def OUT_CSV_def row_newlines_def
      sample_row_def opt_lines_def count_lines_def)

subsection \<open>C6: the identifier of a URL with a numeric id\<close>

text \<open>
  C6, as stated: for every URL whose path matches the site's numeric-id pattern, the resolver
  returns the captured digits exactly. This fails for the jokes scraper, which matches its
  pattern on the whole URL string and wants a slash or the end of the string after the
  digits: the path of \<open>https://www.earki.co/jokes/joke/123?ref=x\<close> matches, with capture
  \<open>123\<close>, and the resolver returns \<open>null\<close>, so that the record has the empty identifier.
\<close>

theorem identity_stability_counterexample:
  "map_option pathname (URL_parse example_platform ''https://www.earki.co/jokes/joke/123?ref=x'')
     = Some ''/jokes/joke/123'' \<and>
   search re_joke ''/jokes/joke/123'' = Some ''123'' \<and>
   getArticleIdFromUrl_jokes ''https://www.earki.co/jokes/joke/123?ref=x'' = None \<and>
   article_id (buildRecord ''https://www.earki.co/jokes/joke/123?ref=x'' sample_eval) = []"
  by (simp add: example_platform_def example_URL_def re_joke_def lit_digits_def is_digit_def
      getArticleIdFromUrl_jokes_def buildRecord_def or_empty_def)

text \<open>
  C6, amended: the resolvers are functions of the URL alone (they read no state, so two calls
  on one URL give one identifier), and when the first match of the numeric pattern captures the
  digits \<open>ds\<close>, the identifier is \<open>ds\<close> exactly. The resolver of jachai.org matches
  \<open>post-(\d+)\<close> on the path of the URL; those of the jokes and of the satire match on the
  whole URL string, \<open>/jokes/joke/(\d+)\<close> before a slash or the end of the string, and
  \<open>/satire/article/(\d+)\<close> before a word boundary. A match at position \<open>length pre\<close> is
  the first when the pattern matches at no earlier position. The two calls of the jokes scraper
  on one URL, for the list and for the record, give the same identifier.
\<close>

theorem identity_stability:
  "(ds \<noteq> [] \<and> list_all is_digit ds \<longrightarrow>
     (URL_parse P u = Some parsed \<and> pathname parsed = pre @ ''post-'' @ ds @ rest \<and>
        (rest = [] \<or> \<not> is_digit (hd rest)) \<and>
        list_all (\<lambda>j. re_post (drop j (pathname parsed)) = None) [0..<length pre]
        \<longrightarrow> getArticleIdFromUrl P u = ds) \<and>
     (uj = prej @ ''/jokes/joke/'' @ ds @ restj \<and> (restj = [] \<or> hd restj = SLASH) \<and>
        list_all (\<lambda>j. re_joke (drop j uj) = None) [0..<length prej]
        \<longrightarrow> getArticleIdFromUrl_jokes uj = Some ds \<and> article_id (buildRecord uj ev) = ds) \<and>
     (us = pres @ ''/satire/article/'' @ ds @ rests \<and>
        (rests = [] \<or> \<not> is_word_char (hd rests)) \<and>
        list_all (\<lambda>j. re_satire (drop j us) = None) [0..<length pres]
        \<longrightarrow> getArticleIdFromUrl_satire us = Some ds \<and> article_id (satire_record us ev) = ds)) \<and>
   (collectLinkObjs P view = Some linkObjs \<longrightarrow>
      (\<forall>p\<in>set linkObjs. article_id (buildRecord (fst p) ev) = snd p))"
proof (intro conjI impI)
  assume d: "ds \<noteq> [] \<and> list_all is_digit ds"
  assume a: "URL_parse P u = Some parsed \<and> pathname parsed = pre @ ''post-'' @ ds @ rest \<and>
       (rest = [] \<or> \<not> is_digit (hd rest)) \<and>
       list_all (\<lambda>j. re_post (drop j (pathname parsed)) = None) [0..<length pre]"
  then have "re_post (''post-'' @ ds @ rest) = Some ds"
    using d by (intro re_post_app) auto
  then have "search re_post (pre @ ''post-'' @ ds @ rest) = Some ds"
    using a by (intro search_first) auto
  then show "getArticleIdFromUrl P u = ds"
    using a by (simp add: getArticleIdFromUrl_def)
next
  assume d: "ds \<noteq> [] \<and> list_all is_digit ds"
  assume a: "uj = prej @ ''/jokes/joke/'' @ ds @ restj \<and> (restj = [] \<or> hd restj = SLASH) \<and>
       list_all (\<lambda>j. re_joke (drop j uj) = None) [0..<length prej]"
  then have "re_joke (''/jokes/joke/'' @ ds @ restj) = Some ds"
    using d by (intro re_joke_app) auto
  then have "search re_joke (prej @ ''/jokes/joke/'' @ ds @ restj) = Some ds"
    using a by (intro search_first) auto
  then show j: "getArticleIdFromUrl_jokes uj = Some ds"
    using a by (simp add: getArticleIdFromUrl_jokes_def)
  then show "article_id (buildRecord uj ev) = ds"
    by (simp add: buildRecord_def or_empty_def)
next
  assume d: "ds \<noteq> [] \<and> list_all is_digit ds"
  assume a: "us = pres @ ''/satire/article/'' @ ds @ rests \<and>
       (rests = [] \<or> \<not> is_word_char (hd rests)) \<and>
       list_all (\<lambda>j. re_satire (drop j us) = None) [0..<length pres]"
  then have "re_satire (''/satire/article/'' @ ds @ rests) = Some ds"
    using d by (intro re_satire_app) auto
  then have "search re_satire (pres @ ''/satire/article/'' @ ds @ rests) = Some ds"
    using a by (intro search_first) auto
  then show j: "getArticleIdFromUrl_satire us = Some ds"
    using a by (simp add: getArticleIdFromUrl_satire_def)
  then show "article_id (satire_record us ev) = ds"
    by (simp add: satire_record_def or_empty_def)
next
  assume "collectLinkObjs P view = Some linkObjs"
  then have "\<forall>p\<in>set linkObjs. snd p = or_empty (getArticleIdFromUrl_jokes (fst p))"
    using collectLinkObjs_shape by blast
  then show "\<forall>p\<in>set linkObjs. article_id (buildRecord (fst p) ev) = snd p"
    by (simp add: buildRecord_def)
qed

theorem identity_stability_witness:
  "list_all is_digit ''12345'' \<and>
   URL_parse example_platform ''https://www.jachai.org/fact-checks/post-12345/''
     = Some \<lparr>pathname = ''/fact-checks/post-12345/'', hostname = ''www.jachai.org''\<rparr> \<and>
   getArticleIdFromUrl example_platform ''https://www.jachai.org/fact-checks/post-12345/'' = ''12345'' \<and>
   getArticleIdFromUrl_jokes ''https://www.earki.co/jokes/joke/12345/a'' = Some ''12345'' \<and>
   getArticleIdFromUrl_satire ''https://www.earki.co/satire/article/12345/a'' = Some ''12345'' \<and>
   collectLinkObjs example_platform (cards_at example_jokes_env 0)
     = Some [(''https://www.earki.co/jokes/joke/11081/a'', ''11081''),
             (''https://www.earki.co/jokes/joke-of-the-day'', [])] \<and>
   article_id (buildRecord ''https://www.earki.co/jokes/joke/11081/a'' sample_eval) = ''11081''"
  using identity_stability [of "''12345''" example_platform
      "''https://www.jachai.org/fact-checks/post-12345/''"
      "\<lparr>pathname = ''/fact-checks/post-12345/'', hostname = ''www.jachai.org''\<rparr>"
      "''/fact-checks/''" "''/''"
      "''https://www.earki.co/jokes/joke/12345/a''" "''https://www.earki.co''" "''/a''" sample_eval
      "''https://www.earki.co/satire/article/12345/a''" "''https://www.earki.co''" "''/a''"
      "cards_at example_jokes_env 0"
      "[(''https://www.earki.co/jokes/joke/11081/a'', ''11081''),
        (''https://www.earki.co/jokes/joke-of-the-day'', [])]"]
  by (simp add: is_digit_def is_word_char_def example_platform_def example_URL_def
      re_post_def re_joke_def re_satire_def lit_digits_def
      collectLinkObjs_def example_jokes_env_def example_resolve_def
      getArticleIdFromUrl_jokes_def or_empty_def)

subsection \<open>C7: the identifier is never empty\<close>

text \<open>
  C7, as stated: for every string the resolver returns a non-empty identifier, the digest of
  the URL when neither the numeric pattern nor a slug applies. This fails for three of the
  four resolvers: those of the jokes and of the satire return \<open>null\<close>, which the callers
  turn into the empty identifier, and \<open>slugFromUrl\<close> returns the empty string for a URL that
  does not parse or has no path segment.
\<close>

theorem resolver_results_counterexample:
  "getArticleIdFromUrl_jokes ''https://www.earki.co/?id=5'' = None \<and>
   article_id (buildRecord ''https://www.earki.co/?id=5'' sample_eval) = [] \<and>
   article_id (satire_record ''https://www.earki.co/?id=5'' sample_eval) = [] \<and>
   slugFromUrl example_platform ''not a url'' = [] \<and>
   slugFromUrl example_platform ''https://www.fact-watch.org/?p=5'' = []"
  by (simp add: buildRecord_def satire_record_def getArticleIdFromUrl_jokes_def
      getArticleIdFromUrl_satire_def re_joke_def re_satire_def lit_digits_def or_empty_def
      slugFromUrl_def example_platform_def example_URL_def last_segment_def)

text \<open>
  C7, amended: no resolver throws. The resolver of jachai.org returns the digits captured by
  the first match of \<open>post-(\d+)\<close> in the path, a non-empty string of digits, and otherwise
  (no match, or a URL that does not parse) the SHA-1 digest of the full URL; it has no slug
  branch. The resolvers of the jokes and of the satire return the digits captured by the first
  match of their pattern in the URL string, and \<open>null\<close> exactly when the pattern matches at
  no position, which gives the empty identifier. \<open>slugFromUrl\<close> (fact-watch) returns the
  last non-empty segment of the path: the segment \<open>seg\<close> when the path is \<open>pre\<close>, \<open>seg\<close>
  and then slashes only, with \<open>pre\<close> empty or ending in a slash; and it returns the empty
  identifier for a URL that does not parse or whose path has no segment.
\<close>

theorem resolver_results:
  "(getArticleIdFromUrl P u = sha1 P u \<or>
      (getArticleIdFromUrl P u \<noteq> [] \<and> list_all is_digit (getArticleIdFromUrl P u))) \<and>
   (URL_parse P u = None \<longrightarrow> getArticleIdFromUrl P u = sha1 P u \<and> slugFromUrl P u = []) \<and>
   (URL_parse P w = Some parsed \<and> search re_post (pathname parsed) = None
      \<longrightarrow> getArticleIdFromUrl P w = sha1 P w) \<and>
   (URL_parse P w = Some parsed \<and> list_all (\<lambda>seg. seg = []) (split_slash (pathname parsed))
      \<longrightarrow> slugFromUrl P w = []) \<and>
   (URL_parse P m = Some pm \<and> search re_post (pathname pm) = Some dm
      \<longrightarrow> getArticleIdFromUrl P m = dm \<and> dm \<noteq> [] \<and> list_all is_digit dm) \<and>
   (URL_parse P m = Some pm \<and> pathname pm = mpre @ ''post-'' @ ds @ mrest \<and>
      ds \<noteq> [] \<and> list_all is_digit ds \<and> (mrest = [] \<or> \<not> is_digit (hd mrest)) \<and>
      list_all (\<lambda>j. re_post (drop j (pathname pm)) = None) [0..<length mpre]
      \<longrightarrow> getArticleIdFromUrl P m = ds) \<and>
   (URL_parse P v = Some pv \<longrightarrow>
      slugFromUrl P v =
        (if filter (\<lambda>p. p \<noteq> []) (split_slash (pathname pv)) = [] then []
         else last (filter (\<lambda>p. p \<noteq> []) (split_slash (pathname pv))))) \<and>
   (URL_parse P v = Some pv \<and> pathname pv = pre @ seg @ post \<and> seg \<noteq> [] \<and>
      SLASH \<notin> set seg \<and> (pre = [] \<or> last pre = SLASH) \<and> list_all (\<lambda>c. c = SLASH) post
      \<longrightarrow> slugFromUrl P v = seg) \<and>
   (getArticleIdFromUrl_jokes uj = None) =
      list_all (\<lambda>j. re_joke (drop j uj) = None) [0..<Suc (length uj)] \<and>
   (getArticleIdFromUrl_satire us = None) =
      list_all (\<lambda>j. re_satire (drop j us) = None) [0..<Suc (length us)] \<and>
   (getArticleIdFromUrl_jokes uj = None \<longrightarrow> article_id (buildRecord uj ev) = []) \<and>
   (getArticleIdFromUrl_satire us = None \<longrightarrow> article_id (satire_record us ev) = []) \<and>
   (x = xpre @ ''/jokes/joke/'' @ dx @ xrest \<and> dx \<noteq> [] \<and> list_all is_digit dx \<and>
      (xrest = [] \<or> hd xrest = SLASH) \<and>
      list_all (\<lambda>j. re_joke (drop j x) = None) [0..<length xpre]
      \<longrightarrow> getArticleIdFromUrl_jokes x = Some dx \<and> article_id (buildRecord x ev) = dx) \<and>
   (y = ypre @ ''/satire/article/'' @ dy @ yrest \<and> dy \<noteq> [] \<and> list_all is_digit dy \<and>
      (yrest = [] \<or> \<not> is_word_char (hd yrest)) \<and>
      list_all (\<lambda>j. re_satire (drop j y) = None) [0..<length ypre]
      \<longrightarrow> getArticleIdFromUrl_satire y = Some dy \<and> article_id (satire_record y ev) = dy) \<and>
   (getArticleIdFromUrl_jokes x = Some d \<longrightarrow>
      d \<noteq> [] \<and> list_all is_digit d \<and> article_id (buildRecord x ev) = d) \<and>
   (getArticleIdFromUrl_satire y = Some d \<longrightarrow>
      d \<noteq> [] \<and> list_all is_digit d \<and> article_id (satire_record y ev) = d)"
proof -
  have c1: "getArticleIdFromUrl P u = sha1 P u \<or>
      (getArticleIdFromUrl P u \<noteq> [] \<and> list_all is_digit (getArticleIdFromUrl P u))"
    by (rule getArticleIdFromUrl_cases)
  have c2: "URL_parse P u = None \<longrightarrow> getArticleIdFromUrl P u = sha1 P u \<and> slugFromUrl P u = []"
    by (simp add: getArticleIdFromUrl_def slugFromUrl_def)
  have c3: "URL_parse P w = Some parsed \<and> search re_post (pathname parsed) = None
      \<longrightarrow> getArticleIdFromUrl P w = sha1 P w"
    by (simp add: getArticleIdFromUrl_def)
  have c4: "URL_parse P w = Some parsed \<and> list_all (\<lambda>seg. seg = []) (split_slash (pathname parsed))
      \<longrightarrow> slugFromUrl P w = []"
    using last_segment_None [of "pathname parsed"] by (auto simp: slugFromUrl_def or_empty_def)
  have c5: "URL_parse P m = Some pm \<and> search re_post (pathname pm) = Some dm
      \<longrightarrow> getArticleIdFromUrl P m = dm \<and> dm \<noteq> [] \<and> list_all is_digit dm"
    using search_digits [of re_post "pathname pm" dm] re_post_digits
    by (auto simp: getArticleIdFromUrl_def)
  have c6: "URL_parse P m = Some pm \<and> pathname pm = mpre @ ''post-'' @ ds @ mrest \<and>
      ds \<noteq> [] \<and> list_all is_digit ds \<and> (mrest = [] \<or> \<not> is_digit (hd mrest)) \<and>
      list_all (\<lambda>j. re_post (drop j (pathname pm)) = None) [0..<length mpre]
      \<longrightarrow> getArticleIdFromUrl P m = ds"
    using jachai_first_match [of P m pm mpre ds mrest] by blast
  have c7: "URL_parse P v = Some pv \<longrightarrow>
      slugFromUrl P v =
        (if filter (\<lambda>p. p \<noteq> []) (split_slash (pathname pv)) = [] then []
         else last (filter (\<lambda>p. p \<noteq> []) (split_slash (pathname pv))))"
    using slugFromUrl_eq [of P v pv] by blast
  have c8: "URL_parse P v = Some pv \<and> pathname pv = pre @ seg @ post \<and> seg \<noteq> [] \<and>
      SLASH \<notin> set seg \<and> (pre = [] \<or> last pre = SLASH) \<and> list_all (\<lambda>c. c = SLASH) post
      \<longrightarrow> slugFromUrl P v = seg"
    using slugFromUrl_decomp [of P v pv pre seg post] by blast
  have c9: "(getArticleIdFromUrl_jokes uj = None) =
      list_all (\<lambda>j. re_joke (drop j uj) = None) [0..<Suc (length uj)]"
    "(getArticleIdFromUrl_satire us = None) =
      list_all (\<lambda>j. re_satire (drop j us) = None) [0..<Suc (length us)]"
    unfolding getArticleIdFromUrl_jokes_def getArticleIdFromUrl_satire_def
    by (rule search_None_list_all)+
  have c10: "getArticleIdFromUrl_jokes uj = None \<longrightarrow> article_id (buildRecord uj ev) = []"
    "getArticleIdFromUrl_satire us = None \<longrightarrow> article_id (satire_record us ev) = []"
    by (simp_all add: buildRecord_def satire_record_def or_empty_def)
  have c11: "x = xpre @ ''/jokes/joke/'' @ dx @ xrest \<and> dx \<noteq> [] \<and> list_all is_digit dx \<and>
      (xrest = [] \<or> hd xrest = SLASH) \<and>
      list_all (\<lambda>j. re_joke (drop j x) = None) [0..<length xpre]
      \<longrightarrow> getArticleIdFromUrl_jokes x = Some dx \<and> article_id (buildRecord x ev) = dx"
  proof
    assume a: "x = xpre @ ''/jokes/joke/'' @ dx @ xrest \<and> dx \<noteq> [] \<and> list_all is_digit dx \<and>
      (xrest = [] \<or> hd xrest = SLASH) \<and>
      list_all (\<lambda>j. re_joke (drop j x) = None) [0..<length xpre]"
    then have "getArticleIdFromUrl_jokes x = Some dx"
      using jokes_first_match [of x xpre dx xrest] by blast
    then show "getArticleIdFromUrl_jokes x = Some dx \<and> article_id (buildRecord x ev) = dx"
      by (simp add: buildRecord_def or_empty_def)
  qed
  have c12: "y = ypre @ ''/satire/article/'' @ dy @ yrest \<and> dy \<noteq> [] \<and> list_all is_digit dy \<and>
      (yrest = [] \<or> \<not> is_word_char (hd yrest)) \<and>
      list_all (\<lambda>j. re_satire (drop j y) = None) [0..<length ypre]
      \<longrightarrow> getArticleIdFromUrl_satire y = Some dy \<and> article_id (satire_record y ev) = dy"
  proof
    assume a: "y = ypre @ ''/satire/article/'' @ dy @ yrest \<and> dy \<noteq> [] \<and> list_all is_digit dy \<and>
      (yrest = [] \<or> \<not> is_word_char (hd yrest)) \<and>
      list_all (\<lambda>j. re_satire (drop j y) = None) [0..<length ypre]"
    then have "getArticleIdFromUrl_satire y = Some dy"
      using satire_first_match [of y ypre dy yrest] by blast
    then show "getArticleIdFromUrl_satire y = Some dy \<and> article_id (satire_record y ev) = dy"
      by (simp add: satire_record_def or_empty_def)
  qed
  have c13: "getArticleIdFromUrl_jokes x = Some d \<longrightarrow>
      d \<noteq> [] \<and> list_all is_digit d \<and> article_id (buildRecord x ev) = d"
    using search_digits [of re_joke x d] re_joke_digits
    by (auto simp: getArticleIdFromUrl_jokes_def buildRecord_def or_empty_def)
  have c14: "getArticleIdFromUrl_satire y = Some d \<longrightarrow>
      d \<noteq> [] \<and> list_all is_digit d \<and> article_id (satire_record y ev) = d"
    using search_digits [of re_satire y d] re_satire_digits
    by (auto simp: getArticleIdFromUrl_satire_def satire_record_def or_empty_def)
  show ?thesis
    by (intro conjI c1 c2 c3 c4 c5 c6 c7 c8 c9 c10 c11 c12 c13 c14)
qed

theorem resolver_results_witness:
  "URL_parse example_platform ''not a url'' = None \<and>
   getArticleIdFromUrl example_platform ''not a url'' = ''d7aad9a0157a961b97833ff47c0d06f7add5a336'' \<and>
   slugFromUrl example_platform ''not a url'' = [] \<and>
   URL_parse example_platform ''https://www.jachai.org/?p=77''
     = Some \<lparr>pathname = ''/'', hostname = ''www.jachai.org''\<rparr> \<and>
   search re_post ''/'' = None \<and>
   getArticleIdFromUrl example_platform ''https://www.jachai.org/?p=77''
     = ''1dd07313533d61289271f41f7d30b6c4fd84d364'' \<and>
   slugFromUrl example_platform ''https://www.jachai.org/?p=77'' = [] \<and>
   URL_parse example_platform ''https://www.jachai.org/fact-checks/post-12345/''
     = Some \<lparr>pathname = ''/fact-checks/post-12345/'', hostname = ''www.jachai.org''\<rparr> \<and>
   getArticleIdFromUrl example_platform ''https://www.jachai.org/fact-checks/post-12345/'' = ''12345'' \<and>
   URL_parse example_platform ''https://www.fact-watch.org/2023/claim-a/''
     = Some \<lparr>pathname = ''/2023/claim-a/'', hostname = ''www.fact-watch.org''\<rparr> \<and>
   slugFromUrl example_platform ''https://www.fact-watch.org/2023/claim-a/'' = ''claim-a'' \<and>
   getArticleIdFromUrl_jokes ''https://www.earki.co/?id=5'' = None \<and>
   getArticleIdFromUrl_satire ''https://www.earki.co/?id=5'' = None \<and>
   article_id (buildRecord ''https://www.earki.co/?id=5'' sample_eval) = [] \<and>
   article_id (satire_record ''https://www.earki.co/?id=5'' sample_eval) = [] \<and>
   getArticleIdFromUrl_jokes ''https://www.earki.co/jokes/joke/12345/a'' = Some ''12345'' \<and>
   article_id (buildRecord ''https://www.earki.co/jokes/joke/12345/a'' sample_eval) = ''12345'' \<and>
   getArticleIdFromUrl_satire ''https://www.earki.co/satire/article/12345/a'' = Some ''12345'' \<and>
   article_id (satire_record ''https://www.earki.co/satire/article/12345/a'' sample_eval) = ''12345''"
  using resolver_results [where P = example_platform and u = "''not a url''"
      and w = "''https://www.jachai.org/?p=77''"
      and parsed = "\<lparr>pathname = ''/'', hostname = ''www.jachai.org''\<rparr>"
      and m = "''https://www.jachai.org/fact-checks/post-12345/''"
      and pm = "\<lparr>pathname = ''/fact-checks/post-12345/'', hostname = ''www.jachai.org''\<rparr>"
      and dm = "''12345''" and mpre = "''/fact-checks/''" and ds = "''12345''" and mrest = "''/''"
      and v = "''https://www.fact-watch.org/2023/claim-a/''"
      and pv = "\<lparr>pathname = ''/2023/claim-a/'', hostname = ''www.fact-watch.org''\<rparr>"
      and pre = "''/2023/''" and seg = "''claim-a''" and post = "''/''"
      and uj = "''https://www.earki.co/?id=5''" and us = "''https://www.earki.co/?id=5''"
      and ev = sample_eval
      and x = "''https://www.earki.co/jokes/joke/12345/a''" and xpre = "''https://www.earki.co''"
      and dx = "''12345''" and xrest = "''/a''"
      and y = "''https://www.earki.co/satire/article/12345/a''" and ypre = "''https://www.earki.co''"
      and dy = "''12345''" and yrest = "''/a''" and d = "''12345''"]
  by (simp add: example_platform_def example_URL_def example_sha1_def re_post_def re_joke_def
      re_satire_def lit_digits_def is_digit_def is_word_char_def)

subsection \<open>C8: the field published_at\<close>

text \<open>
  C8, as stated: \<open>published_at\<close> is the ISO-8601 UTC form of the raw date when it can be
  normalised, and the raw string otherwise. This fails both ways: the jokes scraper keeps the
  raw string of a date that can be normalised, and the jachai.org scraper gives \<open>null\<close>, not
  the raw string, for a date that cannot.
\<close>

theorem published_at_values_counterexample:
  "published_at (buildRecord ''https://www.earki.co/jokes/joke/11081/a'' sample_eval)
     = Some ''2023-08-22T14:38:19+06:00'' \<and>
   Date_toISOString example_platform ''2023-08-22T14:38:19+06:00'' = Some ''2023-08-22T08:38:19.000Z'' \<and>
   Date_toISOString example_platform ''not a date'' = None \<and>
   published_at (make_row example_platform (sample_item\<lparr>it_published_at_raw := Some ''not a date''\<rparr>) None)
     = None"
  by (simp add: buildRecord_def sample_eval_def or_empty_def example_platform_def example_Date_def
      make_row_def normalizeDateISO_def)

text \<open>
  C8, amended: every record the jachai.org scraper writes is made from one card of its page,
  its \<open>source\<close> is the URL of that card and its \<open>published_at\<close> is \<open>normalizeDateISO\<close> of
  the raw date of that card: \<open>null\<close> for a missing or empty raw date, and otherwise what
  \<open>Date\<close> makes of it, the ISO-8601 UTC string or \<open>null\<close> for an invalid date. Every record
  of the jokes scraper is built from the page that the navigation to its own \<open>source\<close> gave,
  and its \<open>published_at\<close> is the raw string of that page, empty when there is none; so is
  that of a record of the satire scraper. Every record of the fact-watch scraper is what
  \<open>scrapeSinglePost\<close> made of the post at its own \<open>source\<close>, a card of its page, and its
  \<open>published_at\<close> is the trimmed text of the date element of that post. None of the three
  normalises the date.
\<close>

theorem published_at_values:
  "(\<forall>e\<in>set (persisted (main_jachai P E f)).
      \<exists>status nodes j c. list_page E (fst e) = Listing status nodes \<and>
        j < length (scrapeListPage nodes) \<and>
        article E (fst e) j (it_url (scrapeListPage nodes ! j)) = Fetched c \<and>
        snd e = make_row P (scrapeListPage nodes ! j) c \<and>
        source (snd e) = it_url (scrapeListPage nodes ! j) \<and>
        published_at (snd e) = normalizeDateISO P (it_published_at_raw (scrapeListPage nodes ! j))) \<and>
   source (make_row P it c) = it_url it \<and>
   published_at (make_row P it c) = normalizeDateISO P (it_published_at_raw it) \<and>
   normalizeDateISO P None = None \<and>
   normalizeDateISO P (Some []) = None \<and>
   (raw \<noteq> [] \<longrightarrow> normalizeDateISO P (Some raw) = Date_toISOString P raw) \<and>
   (\<forall>rec\<in>set (saved_rows (log (final (main_jokes P Ek f)))).
      \<exists>i ev. i < length (log (final (main_jokes P Ek f))) \<and>
        fst (snd (log (final (main_jokes P Ek f)) ! i)) = source rec \<and>
        snd (snd (log (final (main_jokes P Ek f)) ! i)) = Some rec \<and>
        joke_page Ek i (source rec) = Some ev \<and>
        rec = buildRecord (source rec) ev \<and>
        published_at rec = Some (or_empty (ae_published_at ev))) \<and>
   source (buildRecord u ev) = u \<and>
   published_at (buildRecord u ev) = Some (or_empty (ae_published_at ev)) \<and>
   source (satire_record u ev) = u \<and>
   published_at (satire_record u ev) = Some (or_empty (ae_published_at ev)) \<and>
   (\<forall>e\<in>set (persisted (main_fw P Ef f)).
      \<exists>i d. (i, source (snd e), Post d) \<in> set (page_posts P Ef (fst e)) \<and>
        fw_post Ef (fst e) i (source (snd e)) = Post d \<and>
        scrapeSinglePost P (Post d) (source (snd e)) = Some (snd e) \<and>
        published_at (snd e) = Some (trim (or_empty (pd_date d))))"
proof (intro conjI ballI impI)
  fix e assume "e \<in> set (persisted (main_jachai P E f))"
  then have "row_of_page P E e" using main_jachai_run [of P E f] by blast
  then obtain status nodes j c where r: "list_page E (fst e) = Listing status nodes"
    "j < length (scrapeListPage nodes)"
    "article E (fst e) j (it_url (scrapeListPage nodes ! j)) = Fetched c"
    "snd e = make_row P (scrapeListPage nodes ! j) c"
    unfolding row_of_page_def by blast
  show "\<exists>status nodes j c. list_page E (fst e) = Listing status nodes \<and>
        j < length (scrapeListPage nodes) \<and>
        article E (fst e) j (it_url (scrapeListPage nodes ! j)) = Fetched c \<and>
        snd e = make_row P (scrapeListPage nodes ! j) c \<and>
        source (snd e) = it_url (scrapeListPage nodes ! j) \<and>
        published_at (snd e) = normalizeDateISO P (it_published_at_raw (scrapeListPage nodes ! j))"
    using r by (intro exI [of _ status] exI [of _ nodes] exI [of _ j] exI [of _ c])
      (simp add: make_row_def)
next
  show "source (make_row P it c) = it_url it"
    "published_at (make_row P it c) = normalizeDateISO P (it_published_at_raw it)"
    by (simp_all add: make_row_def)
next
  show "normalizeDateISO P None = None" "normalizeDateISO P (Some []) = None"
    by (simp_all add: normalizeDateISO_def)
next
  assume "raw \<noteq> []"
  then show "normalizeDateISO P (Some raw) = Date_toISOString P raw"
    by (simp add: normalizeDateISO_def)
next
  fix rec assume "rec \<in> set (saved_rows (log (final (main_jokes P Ek f))))"
  then obtain i ev where r: "i < length (log (final (main_jokes P Ek f)))"
    "fst (snd (log (final (main_jokes P Ek f)) ! i)) = source rec"
    "snd (snd (log (final (main_jokes P Ek f)) ! i)) = Some rec"
    "joke_page Ek i (source rec) = Some ev" "rec = buildRecord (source rec) ev"
    using jokes_saved_from [of rec P Ek f] by blast
  have "published_at rec = Some (or_empty (ae_published_at ev))"
    by (subst r(5)) (simp add: buildRecord_def)
  then show "\<exists>i ev. i < length (log (final (main_jokes P Ek f))) \<and>
        fst (snd (log (final (main_jokes P Ek f)) ! i)) = source rec \<and>
        snd (snd (log (final (main_jokes P Ek f)) ! i)) = Some rec \<and>
        joke_page Ek i (source rec) = Some ev \<and>
        rec = buildRecord (source rec) ev \<and>
        published_at rec = Some (or_empty (ae_published_at ev))"
    using r by (intro exI [of _ i] exI [of _ ev]) simp
next
  show "source (buildRecord u ev) = u"
    "published_at (buildRecord u ev) = Some (or_empty (ae_published_at ev))"
    by (simp_all add: buildRecord_def)
next
  show "source (satire_record u ev) = u"
    "published_at (satire_record u ev) = Some (or_empty (ae_published_at ev))"
    by (simp_all add: satire_record_def)
next
  fix e assume "e \<in> set (persisted (main_fw P Ef f))"
  then have "snd e \<in> set (page_records P Ef (fst e))"
    using main_fw_eq [of P Ef f] by (simp add: fw_records_mem)
  then obtain i u pg where m: "(i, u, pg) \<in> set (page_posts P Ef (fst e))"
    and s: "scrapeSinglePost P pg u = Some (snd e)" using page_records_mem by blast
  obtain d where d: "pg = Post d" "published_at (snd e) = Some (trim (or_empty (pd_date d)))"
    "source (snd e) = u"
    using scrapeSinglePost_Some [OF s] by blast
  have "fw_post Ef (fst e) i u = Post d" using page_posts_mem [OF m] d(1) by simp
  then show "\<exists>i d. (i, source (snd e), Post d) \<in> set (page_posts P Ef (fst e)) \<and>
        fw_post Ef (fst e) i (source (snd e)) = Post d \<and>
        scrapeSinglePost P (Post d) (source (snd e)) = Some (snd e) \<and>
        published_at (snd e) = Some (trim (or_empty (pd_date d)))"
    using m s d by (intro exI [of _ i] exI [of _ d]) simp
qed

theorem published_at_values_witness:
  "(1, sample_jachai_row) \<in> set (persisted (main_jachai example_platform example_jachai_env empty_fs)) \<and>
   (\<exists>status nodes j c. list_page example_jachai_env 1 = Listing status nodes \<and>
      j < length (scrapeListPage nodes) \<and>
      article example_jachai_env 1 j (it_url (scrapeListPage nodes ! j)) = Fetched c \<and>
      sample_jachai_row = make_row example_platform (scrapeListPage nodes ! j) c \<and>
      source sample_jachai_row = it_url (scrapeListPage nodes ! j) \<and>
      published_at sample_jachai_row
        = normalizeDateISO example_platform (it_published_at_raw (scrapeListPage nodes ! j))) \<and>
   normalizeDateISO example_platform (Some ''2023-08-22T14:38:19+06:00'')
     = Some ''2023-08-22T08:38:19.000Z'' \<and>
   buildRecord ''https://www.earki.co/jokes/joke/11081/a'' sample_eval
     \<in> set (saved_rows (log (final (main_jokes example_platform example_jokes_env empty_fs)))) \<and>
   (\<exists>i ev. i < length (log (final (main_jokes example_platform example_jokes_env empty_fs))) \<and>
      log (final (main_jokes example_platform example_jokes_env empty_fs)) ! i
        = (1, ''https://www.earki.co/jokes/joke/11081/a'',
           Some (buildRecord ''https://www.earki.co/jokes/joke/11081/a'' sample_eval)) \<and>
      joke_page example_jokes_env i ''https://www.earki.co/jokes/joke/11081/a'' = Some ev \<and>
      published_at (buildRecord ''https://www.earki.co/jokes/joke/11081/a'' sample_eval)
        = Some (or_empty (ae_published_at ev))) \<and>
   (6, sample_fw_row) \<in> set (persisted (main_fw example_platform example_fw_env empty_fs)) \<and>
   (\<exists>i d. (i, source sample_fw_row, Post d) \<in> set (page_posts example_platform example_fw_env 6) \<and>
      fw_post example_fw_env 6 i (source sample_fw_row) = Post d \<and>
      scrapeSinglePost example_platform (Post d) (source sample_fw_row) = Some sample_fw_row \<and>
      published_at sample_fw_row = Some (trim (or_empty (pd_date d))))"
proof -
  let ?u = "''https://www.earki.co/jokes/joke/11081/a''"
  let ?lg = "log (final (main_jokes example_platform example_jokes_env empty_fs))"
  note t = published_at_values [where P = example_platform and E = example_jachai_env
      and f = empty_fs and raw = "''2023-08-22T14:38:19+06:00''" and Ef = example_fw_env
      and Ek = example_jokes_env]
  have m1: "(1, sample_jachai_row) \<in> set (persisted (main_jachai example_platform example_jachai_env empty_fs))"
    using example_jachai_run by simp
  have m6: "(6, sample_fw_row) \<in> set (persisted (main_fw example_platform example_fw_env empty_fs))"
    by (rule example_fw_persisted)
  have mj: "buildRecord ?u sample_eval \<in> set (saved_rows ?lg)"
    unfolding example_jokes_full_log by (simp add: saved_rows_def List.map_filter_def)
  have a: "\<exists>status nodes j c. list_page example_jachai_env (fst (1::nat, sample_jachai_row)) = Listing status nodes \<and>
      j < length (scrapeListPage nodes) \<and>
      article example_jachai_env (fst (1::nat, sample_jachai_row)) j (it_url (scrapeListPage nodes ! j)) = Fetched c \<and>
      snd (1::nat, sample_jachai_row) = make_row example_platform (scrapeListPage nodes ! j) c \<and>
      source (snd (1::nat, sample_jachai_row)) = it_url (scrapeListPage nodes ! j) \<and>
      published_at (snd (1::nat, sample_jachai_row))
        = normalizeDateISO example_platform (it_published_at_raw (scrapeListPage nodes ! j))"
    using t m1 by blast
  have b: "\<exists>i d. (i, source (snd (6::nat, sample_fw_row)), Post d)
        \<in> set (page_posts example_platform example_fw_env (fst (6::nat, sample_fw_row))) \<and>
      fw_post example_fw_env (fst (6::nat, sample_fw_row)) i (source (snd (6::nat, sample_fw_row))) = Post d \<and>
      scrapeSinglePost example_platform (Post d) (source (snd (6::nat, sample_fw_row)))
        = Some (snd (6::nat, sample_fw_row)) \<and>
      published_at (snd (6::nat, sample_fw_row)) = Some (trim (or_empty (pd_date d)))"
    using t m6 by blast
  have c: "normalizeDateISO example_platform (Some ''2023-08-22T14:38:19+06:00'')
     = Some ''2023-08-22T08:38:19.000Z''"
    using t by (simp add: example_platform_def example_Date_def)
  obtain i ev where j: "i < length ?lg"
    "fst (snd (?lg ! i)) = source (buildRecord ?u sample_eval)"
    "snd (snd (?lg ! i)) = Some (buildRecord ?u sample_eval)"
    "joke_page example_jokes_env i (source (buildRecord ?u sample_eval)) = Some ev"
    "published_at (buildRecord ?u sample_eval) = Some (or_empty (ae_published_at ev))"
    using t mj by blast
  have su: "source (buildRecord ?u sample_eval) = ?u" by (simp add: buildRecord_def)
  have "i = 0 \<or> i = 1" using j(1) unfolding example_jokes_full_log by (simp add: less_Suc_eq)
  moreover have "i \<noteq> 0" using j(3) unfolding example_jokes_full_log by (cases "i = 0") simp_all
  ultimately have "i = 1" by simp
  then have "?lg ! i = (1, ?u, Some (buildRecord ?u sample_eval))"
    unfolding example_jokes_full_log by simp
  then have d: "\<exists>i ev. i < length ?lg \<and>
      ?lg ! i = (1, ?u, Some (buildRecord ?u sample_eval)) \<and>
      joke_page example_jokes_env i ?u = Some ev \<and>
      published_at (buildRecord ?u sample_eval) = Some (or_empty (ae_published_at ev))"
    using j su by (intro exI [of _ i] exI [of _ ev]) simp
  show ?thesis using m1 m6 mj a b c d by simp
qed

subsection \<open>C9: the label\<close>

text \<open>
  C9: every record the fact-watch scraper writes comes from a post with a schema block, and its
  label is 0 exactly when the lower-cased text of that block contains \<open>false\<close>, the case of
  the letters ignored, and 1 otherwise. Every record of the jachai.org, jokes and satire
  scrapers has the label 0.
\<close>

theorem label_values:
  "(\<forall>e\<in>set (persisted (main_fw P E f)).
      \<exists>i u d. (i, u, Post d) \<in> set (page_posts P E (fst e)) \<and>
        scrapeSinglePost P (Post d) u = Some (snd e) \<and>
        (label (snd e) = 0 \<longleftrightarrow> contains_ci ''false'' (toLowerCase P (or_empty (pd_schema d)))) \<and>
        (label (snd e) = 1 \<longleftrightarrow> \<not> contains_ci ''false'' (toLowerCase P (or_empty (pd_schema d))))) \<and>
   (\<forall>e\<in>set (persisted (main_jachai P Ej f)). label (snd e) = 0) \<and>
   (\<forall>rec\<in>set (saved_rows (log (final (main_jokes P Ek f)))). label rec = 0) \<and>
   label (satire_record u ev) = 0"
proof (intro conjI ballI)
  fix e assume "e \<in> set (persisted (main_fw P E f))"
  then have "snd e \<in> set (page_records P E (fst e))"
    using main_fw_eq [of P E f] by (simp add: fw_records_mem)
  then obtain i u pg where m: "(i, u, pg) \<in> set (page_posts P E (fst e))"
    and s: "scrapeSinglePost P pg u = Some (snd e)" using page_records_mem by blast
  obtain d where d: "pg = Post d"
    and l: "label (snd e) = (if test_false_i (toLowerCase P (or_empty (pd_schema d))) then 0 else 1)"
    using scrapeSinglePost_Some [OF s] by blast
  have "(label (snd e) = 0 \<longleftrightarrow> contains_ci ''false'' (toLowerCase P (or_empty (pd_schema d)))) \<and>
        (label (snd e) = 1 \<longleftrightarrow> \<not> contains_ci ''false'' (toLowerCase P (or_empty (pd_schema d))))"
    using l by (simp add: test_false_i_def test_ci_iff)
  then show "\<exists>i u d. (i, u, Post d) \<in> set (page_posts P E (fst e)) \<and>
        scrapeSinglePost P (Post d) u = Some (snd e) \<and>
        (label (snd e) = 0 \<longleftrightarrow> contains_ci ''false'' (toLowerCase P (or_empty (pd_schema d)))) \<and>
        (label (snd e) = 1 \<longleftrightarrow> \<not> contains_ci ''false'' (toLowerCase P (or_empty (pd_schema d))))"
    using m s d by (intro exI [of _ i] exI [of _ u] exI [of _ d]) simp
next
  fix e assume "e \<in> set (persisted (main_jachai P Ej f))"
  then have "row_of_page P Ej e" using main_jachai_run [of P Ej f] by blast
  then obtain it c where "snd e = make_row P it c" using row_of_page_make by blast
  then show "label (snd e) = 0" by (simp add: make_row_def)
next
  fix rec assume "rec \<in> set (saved_rows (log (final (main_jokes P Ek f))))"
  then obtain u' ev' where "rec = buildRecord u' ev'" using jokes_saved_built by blast
  then show "label rec = 0" by (simp add: buildRecord_def)
next
  show "label (satire_record u ev) = 0" by (simp add: satire_record_def)
qed

theorem label_values_witness:
  "(6, sample_fw_row) \<in> set (persisted (main_fw example_platform example_fw_env empty_fs)) \<and>
   label sample_fw_row = 0 \<and>
   (\<exists>i u d. (i, u, Post d) \<in> set (page_posts example_platform example_fw_env 6) \<and>
      contains_ci ''false'' (toLowerCase example_platform (or_empty (pd_schema d))))"
proof -
  have l: "label sample_fw_row = 0" by (simp add: sample_fw_row_def)
  obtain i u d where "(i, u, Post d) \<in> set (page_posts example_platform example_fw_env 6)"
    and "label sample_fw_row = 0 \<longleftrightarrow>
           contains_ci ''false'' (toLowerCase example_platform (or_empty (pd_schema d)))"
    using label_values [of example_platform example_fw_env empty_fs] example_fw_persisted by fastforce
  then show ?thesis using l example_fw_persisted by (intro conjI exI [of _ i] exI [of _ u] exI [of _ d]) simp_all
qed

subsection \<open>C10: a card without a numeric id is never dispatched\<close>

text \<open>
  C10: in a run of the jokes scraper a URL that does not match
  \<open>/jokes/joke/<digits>\<close> is never given to \<open>scrapeOneArticle\<close> and is the source of no
  record written; the files hold exactly the records of the log.
\<close>

theorem unmatched_never_dispatched:
  "(getArticleIdFromUrl_jokes a = None \<longrightarrow>
      a \<notin> set (dispatched (log (final (main_jokes P E f)))) \<and>
      a \<notin> source ` set (saved_rows (log (final (main_jokes P E f))))) \<and>
   jfs (final (main_jokes P E f))
     = fold (writeRecord jokes_out) (saved_rows (log (final (main_jokes P E f))))
         (ensureOut jokes_out f)"
proof -
  have "a \<notin> set (dispatched (log (final (main_jokes P E f))))"
    if "getArticleIdFromUrl_jokes a = None"
    using that jokes_dispatched_match by blast
  moreover have "a \<notin> source ` set (saved_rows (log (final (main_jokes P E f))))"
    if n: "getArticleIdFromUrl_jokes a = None"
  proof
    assume "a \<in> source ` set (saved_rows (log (final (main_jokes P E f))))"
    then obtain rec where "rec \<in> set (saved_rows (log (final (main_jokes P E f))))" "source rec = a"
      by auto
    then obtain u ev where "rec = buildRecord u ev" "getArticleIdFromUrl_jokes u \<noteq> None"
      using jokes_saved_built by blast
    then show False using \<open>source rec = a\<close> n by (simp add: buildRecord_def)
  qed
  moreover have "jfs (final (main_jokes P E f))
     = fold (writeRecord jokes_out) (saved_rows (log (final (main_jokes P E f))))
         (ensureOut jokes_out f)"
    using main_jokes_inv [of E f P] unfolding jokes_inv_def by blast
  ultimately show ?thesis by blast
qed

theorem unmatched_never_dispatched_witness:
  "getArticleIdFromUrl_jokes ''https://www.earki.co/jokes/joke-of-the-day'' = None \<and>
   collectLinkObjs example_platform (cards_at example_jokes_env 0)
     = Some [(''https://www.earki.co/jokes/joke/11081/a'', ''11081''),
             (''https://www.earki.co/jokes/joke-of-the-day'', [])] \<and>
   ''https://www.earki.co/jokes/joke-of-the-day''
     \<notin> set (dispatched (log (final (main_jokes example_platform example_jokes_env empty_fs)))) \<and>
   ''https://www.earki.co/jokes/joke-of-the-day''
     \<notin> source ` set (saved_rows (log (final (main_jokes example_platform example_jokes_env empty_fs))))"
  using unmatched_never_dispatched [of "''https://www.earki.co/jokes/joke-of-the-day''"
      example_platform example_jokes_env empty_fs] example_links
  by (simp add: getArticleIdFromUrl_jokes_def re_joke_def lit_digits_def)

end
